theory Spec2Isabelle
  imports Complex_Main "HOL-Library.AList"
begin

section \<open>Image file validation (lib/storage: validateImageFile, validateImageFiles)\<close>

text \<open>
  The browser's \<^verbatim>\<open>File\<close> object, as far as the validators read it: its name, its MIME
  type and its size in bytes (a non-negative integer).
\<close>

record File =
  file_name :: string
  file_type :: string
  file_size :: nat

text \<open>The result object \<^verbatim>\<open>{ isValid: boolean; error?: string }\<close>.\<close>

record validation =
  isValid :: bool
  error :: "string option"

definition allowedTypes :: "string list" where
  "allowedTypes = [''image/jpeg'', ''image/png'', ''image/webp'']"

definition maxSize :: nat where
  "maxSize = 10 * 1024 * 1024"

definition validateImageFile :: "File \<Rightarrow> validation" where
  "validateImageFile file =
     (if file_type file \<notin> set allowedTypes then
        \<lparr>isValid = False, error = Some ''Only JPEG, PNG, and WebP images are allowed''\<rparr>
      else if file_size file > maxSize then
        \<lparr>isValid = False, error = Some ''File size must be less than 10MB''\<rparr>
      else \<lparr>isValid = True, error = None\<rparr>)"

text \<open>Decimal rendering of a number inside a template literal.\<close>

definition digit_char :: "nat \<Rightarrow> char" where
  "digit_char d = ''0123456789'' ! d"

function show_nat :: "nat \<Rightarrow> string" where
  "show_nat n = (if n < 10 then [digit_char n] else show_nat (n div 10) @ [digit_char (n mod 10)])"
  by pat_completeness auto
termination
  by (relation "measure (\<lambda>n. n)") auto

declare show_nat.simps [simp del]

text \<open>
  A template literal renders an absent \<^verbatim>\<open>error\<close> as the text \<^verbatim>\<open>undefined\<close>.
\<close>

definition error_text :: "validation \<Rightarrow> string" where
  "error_text v = (case error v of Some e \<Rightarrow> e | None \<Rightarrow> ''undefined'')"

definition file_message :: "nat \<Rightarrow> validation \<Rightarrow> string" where
  "file_message i v = ''File '' @ show_nat (i + 1) @ '': '' @ error_text v"

text \<open>
  The \<^verbatim>\<open>for\<close> loop of \<^verbatim>\<open>validateImageFiles\<close>: \<open>i\<close> is the loop index, \<open>errors\<close> the
  array the loop pushes to, and the first argument the files from index \<open>i\<close> on.
\<close>

fun validate_loop :: "File list \<Rightarrow> nat \<Rightarrow> string list \<Rightarrow> string list" where
  "validate_loop [] i errors = errors"
| "validate_loop (f # fs) i errors =
     (let validation = validateImageFile f
      in validate_loop fs (i + 1)
           (if \<not> isValid validation then errors @ [file_message i validation] else errors))"

text \<open>
  The result object \<^verbatim>\<open>{ isValid: boolean; errors: string[] }\<close>; its \<^verbatim>\<open>isValid\<close> is
  the field \<open>allValid\<close>.
\<close>

record validations =
  allValid :: bool
  errors :: "string list"

definition validateImageFiles :: "File list \<Rightarrow> validations" where
  "validateImageFiles files =
     (let errors = validate_loop files 0 []
      in \<lparr>allValid = (length errors = 0), errors = errors\<rparr>)"

section \<open>The data model (types/index.ts)\<close>

text \<open>
  Only the fields that the modelled functions read are kept. A JavaScript \<^verbatim>\<open>number\<close>
  that holds a coordinate or a zoom level is a real number here (no NaN, no infinities);
  a \<^verbatim>\<open>Date\<close> is its number of milliseconds.
\<close>

record DivePhoto =
  photo_id :: string
  url :: string
  fileName :: string
  photo_size :: nat

record DiveLocation =
  lat :: real
  lng :: real
  name :: string

text \<open>
  The fields that a dive log has both as a stored document and as the \<^verbatim>\<open>DiveLog\<close> of
  the application. \<^verbatim>\<open>DiveLog\<close> adds the \<^verbatim>\<open>id\<close>.
\<close>

record DiveLogData =
  userId :: string
  title :: string
  location :: DiveLocation
  photos :: "DivePhoto list"
  createdAt :: nat

record DiveLog = DiveLogData +
  dive_id :: string

section \<open>The marker visual (DiveMap: createMarkerContent)\<close>

text \<open>
  The DOM subtree that \<^verbatim>\<open>createMarkerContent\<close> builds: a container \<^verbatim>\<open>div\<close> with the
  style properties the function sets, and its children in document order. The children
  are the count badge (with its text), the thumbnail image (with \<^verbatim>\<open>src\<close> and \<^verbatim>\<open>alt\<close>)
  and the default icon (the fixed SVG).
\<close>

datatype node = Badge string | Img string string | Icon

record element =
  width :: nat
  height :: nat
  borderRadius :: string
  borderWidth :: nat
  borderColor :: string
  highlightRing :: bool
  background :: "string option"
  children :: "node list"

definition appendChild :: "node \<Rightarrow> element \<Rightarrow> element" where
  "appendChild n e = e\<lparr>children := children e @ [n]\<rparr>"

definition createMarkerContent :: "DiveLog \<Rightarrow> bool \<Rightarrow> element" where
  "createMarkerContent diveLog isSelected =
     (let size = (if isSelected then 60 else 50);
          bw = (if isSelected then 4 else 3);
          container = \<lparr>width = size, height = size, borderRadius = ''50%'',
                       borderWidth = bw,
                       borderColor = (if isSelected then ''#EF4444'' else ''#FFFFFF''),
                       highlightRing = isSelected, background = None, children = []\<rparr>
      in if length (photos diveLog) > 0 then
           let img = Img (url (photos diveLog ! 0)) (title diveLog);
               container1 =
                 (if length (photos diveLog) > 1
                  then appendChild (Badge (show_nat (length (photos diveLog)))) container
                  else container)
           in appendChild img container1
         else
           appendChild Icon
             (container\<lparr>background := Some ''linear-gradient(135deg, #3B82F6 0%, #1E40AF 100%)''\<rparr>))"

text \<open>What the claims call the shape and the state of a visual.\<close>

definition circular :: "element \<Rightarrow> bool" where
  "circular e \<longleftrightarrow> borderRadius e = ''50%'' \<and> width e = height e"

definition has_badge :: "element \<Rightarrow> bool" where
  "has_badge e \<longleftrightarrow> (\<exists>n \<in> set (children e). case n of Badge _ \<Rightarrow> True | _ \<Rightarrow> False)"

definition selected_style :: "element \<Rightarrow> bool" where
  "selected_style e \<longleftrightarrow> borderColor e = ''#EF4444''"

section \<open>The backend (lib/firestore, lib/storage)\<close>

text \<open>
  The two platform services as far as the modelled functions use them. The document
  store holds the \<^verbatim>\<open>diveLogs\<close> collection, document id to data, and the blob store
  holds the set of object paths. Their failures are part of the state: \<open>read_error\<close>
  and \<open>write_error\<close> are what a Firestore read or write throws at present, if anything,
  and \<open>refused\<close> lists the paths whose deletion the blob store refuses even though the
  object exists. Deleting an object that does not exist fails, too.
\<close>

datatype error = FirestoreError string | StorageError string | Error string

text \<open>
  The data of a stored document, \<^verbatim>\<open>doc.data() as FirestoreDiveLog\<close>. The interface
  declares no \<^verbatim>\<open>id\<close>, but the cast removes nothing: \<open>id_field\<close> is the \<^verbatim>\<open>id\<close> that the
  stored data has, if it has one.
\<close>

record FirestoreDiveLog = DiveLogData +
  id_field :: "string option"

record backend =
  diveLogs :: "(string \<times> FirestoreDiveLog) list"
  blobs :: "string list"
  read_error :: "error option"
  write_error :: "error option"
  refused :: "string list"

text \<open>
  A query on the collection: the optional \<^verbatim>\<open>where('userId', '==', u)\<close> filter; every
  query of the module orders by \<^verbatim>\<open>createdAt\<close> descending. \<open>getDocs\<close> is the platform's
  answer: the matching documents, newest first.

  \<^verbatim>\<open>convertFirestoreDiveLog\<close> builds \<^verbatim>\<open>{ id, ...data, ... }\<close>: the document id, unless the
  data has an \<^verbatim>\<open>id\<close> of its own, which the spread then puts in its place.
\<close>

definition convertFirestoreDiveLog :: "string \<Rightarrow> FirestoreDiveLog \<Rightarrow> DiveLog" where
  "convertFirestoreDiveLog i data =
     \<lparr>userId = userId data, title = title data, location = location data,
      photos = photos data, createdAt = createdAt data,
      dive_id = (case id_field data of Some j \<Rightarrow> j | None \<Rightarrow> i)\<rparr>"





definition getDiveLog :: "string \<Rightarrow> backend \<Rightarrow> error + DiveLog option" where
  "getDiveLog i b =
     (case read_error b of
        Some e \<Rightarrow> Inl e
      | None \<Rightarrow> Inr (map_option (convertFirestoreDiveLog i) (map_of (diveLogs b) i)))"

definition deleteDoc :: "string \<Rightarrow> backend \<Rightarrow> (error + unit) \<times> backend" where
  "deleteDoc i b =
     (case write_error b of
        Some e \<Rightarrow> (Inl e, b)
      | None \<Rightarrow> (Inr (), b\<lparr>diveLogs := AList.delete i (diveLogs b)\<rparr>))"

definition deleteObject :: "string \<Rightarrow> backend \<Rightarrow> (error + unit) \<times> backend" where
  "deleteObject path b =
     (if path \<notin> set (blobs b) then (Inl (StorageError ''storage/object-not-found''), b)
      else if path \<in> set (refused b) then (Inl (StorageError ''storage/unauthorized''), b)
      else (Inr (), b\<lparr>blobs := removeAll path (blobs b)\<rparr>))"

definition photo_path :: "string \<Rightarrow> string" where
  "photo_path photoId = ''dive-photos/'' @ photoId"

definition deletePhoto :: "string \<Rightarrow> backend \<Rightarrow> (error + unit) \<times> backend" where
  "deletePhoto photoId b =
     (case deleteObject (photo_path photoId) b of
        (Inl e, b') \<Rightarrow> (Inl (Error ''Failed to delete photo''), b')
      | (Inr u, b') \<Rightarrow> (Inr u, b'))"

text \<open>
  \<^verbatim>\<open>Promise.all(photos.map(photo => deletePhoto(photo.id)))\<close>: every deletion is
  started, whether or not another one fails, and the combined promise rejects with the
  first failure. The model runs the deletions in list order and returns the state in which
  all of them have finished.
\<close>

fun deletePhotos :: "string list \<Rightarrow> backend \<Rightarrow> error option \<times> backend" where
  "deletePhotos [] b = (None, b)"
| "deletePhotos (p # ps) b =
     (case deletePhoto p b of
        (r, b1) \<Rightarrow>
          (case deletePhotos ps b1 of
             (r', b2) \<Rightarrow> ((case r of Inl e \<Rightarrow> Some e | Inr _ \<Rightarrow> r'), b2)))"

definition deleteDiveLog :: "string \<Rightarrow> backend \<Rightarrow> (error + unit) \<times> backend" where
  "deleteDiveLog i b =
     (case getDiveLog i b of
        Inl e \<Rightarrow> (Inl e, b)
      | Inr diveLog \<Rightarrow>
          (case (case diveLog of
                   Some d \<Rightarrow>
                     if length (photos d) > 0 then deletePhotos (map photo_id (photos d)) b
                     else (None, b)
                 | None \<Rightarrow> (None, b)) of
             (Some e, b1) \<Rightarrow> (Inl e, b1)
           | (None, b1) \<Rightarrow> deleteDoc i b1))"

text \<open>A small backend: one dive log with two photos, and one blob of another record.\<close>

definition example_dive :: FirestoreDiveLog where
  "example_dive =
     \<lparr>userId = ''u'', title = ''Reef'',
      location = \<lparr>lat = 20, lng = 20, name = ''B''\<rparr>,
      photos = [\<lparr>photo_id = ''u/1_x.jpg'', url = ''p1'', fileName = ''x.jpg'', photo_size = 10\<rparr>,
                \<lparr>photo_id = ''u/2_y.jpg'', url = ''p2'', fileName = ''y.jpg'', photo_size = 20\<rparr>],
      createdAt = 2, id_field = None\<rparr>"

definition example_backend :: backend where
  "example_backend =
     \<lparr>diveLogs = [(''x'', example_dive)],
      blobs = [''dive-photos/u/1_x.jpg'', ''dive-photos/v/3_z.jpg'', ''dive-photos/u/2_y.jpg''],
      read_error = None, write_error = None, refused = []\<rparr>"

section \<open>The map component (components/map/DiveMap)\<close>

subsection \<open>The maps SDK, as far as the component drives it\<close>

text \<open>
  \<^verbatim>\<open>google.maps.LatLngBounds\<close>: empty when constructed, and \<^verbatim>\<open>extend\<close> grows it to
  contain a point. The model is the rectangle of the SDK for points that do not make it
  cross the antimeridian; a point is the pair of its latitude and longitude.
\<close>

datatype LatLngBounds = EmptyBounds | Bounds real real real real

fun extendBounds :: "LatLngBounds \<Rightarrow> real \<times> real \<Rightarrow> LatLngBounds" where
  "extendBounds EmptyBounds (la, lo) = Bounds la lo la lo"
| "extendBounds (Bounds s w n e) (la, lo) = Bounds (min s la) (min w lo) (max n la) (max e lo)"

fun contains :: "LatLngBounds \<Rightarrow> real \<times> real \<Rightarrow> bool" where
  "contains EmptyBounds p = False"
| "contains (Bounds s w n e) (la, lo) \<longleftrightarrow> s \<le> la \<and> la \<le> n \<and> w \<le> lo \<and> lo \<le> e"

definition createBounds :: "DiveLocation list \<Rightarrow> LatLngBounds option" where
  "createBounds positions =
     (if length positions = 0 then None
      else Some (fold (\<lambda>pos bounds. extendBounds bounds (lat pos, lng pos)) positions EmptyBounds))"

text \<open>
  The map object: the calls the component has made on it, in order, the zoom level that
  \<^verbatim>\<open>getZoom\<close> returns (\<open>None\<close> for \<^verbatim>\<open>undefined\<close>), and the number of
  \<^verbatim>\<open>bounds_changed\<close> listeners of the component that are registered at present.
\<close>

datatype command =
    FitBounds LatLngBounds
  | AddListener
  | RemoveListener
  | SetZoom real
  | PanTo real real

record gmap =
  zoom :: "real option"
  commands :: "command list"
  listeners :: nat

text \<open>
  An \<^verbatim>\<open>AdvancedMarkerElement\<close>: its position, title and content, whether its \<^verbatim>\<open>map\<close>
  property is the map (\<open>True\<close>) or \<^verbatim>\<open>null\<close> (\<open>False\<close>), and the dive log that the
  \<^verbatim>\<open>updateContent\<close> closure stored on it has captured.
\<close>

record marker =
  position :: "real \<times> real"
  marker_title :: string
  content :: element
  marker_map :: bool
  diveLog :: DiveLog

definition updateContent :: "marker \<Rightarrow> bool \<Rightarrow> element" where
  "updateContent m isSelected = createMarkerContent (diveLog m) isSelected"

subsection \<open>The object that holds the markers\<close>

text \<open>
  \<^verbatim>\<open>markersRef.current\<close> is a plain object, created by \<^verbatim>\<open>{}\<close>, that the component
  uses as a map from dive log ids to markers. Its own properties are kept in the order in
  which their keys were first assigned. The key \<^verbatim>\<open>__proto__\<close> is special: assigning a
  marker to it makes the marker the prototype of the object and creates no property of
  the object; \<open>proto\<close> is that marker, and \<open>None\<close> stands for \<^verbatim>\<open>Object.prototype\<close>.
  Every other key is taken to be an ordinary property name. (While a marker is the
  prototype, a key that names an accessor which the marker inherits from the DOM would
  reach that accessor instead; dive log ids are taken not to be such names.)
\<close>

record jsobject =
  proto :: "nat option"
  own :: "(string \<times> nat) list"

definition emptyObject :: jsobject where
  "emptyObject = \<lparr>proto = None, own = []\<rparr>"

definition assign :: "string \<Rightarrow> nat \<Rightarrow> jsobject \<Rightarrow> jsobject" where
  "assign k h obj =
     (if k = ''__proto__'' then obj\<lparr>proto := Some h\<rparr>
      else obj\<lparr>own := AList.update k h (own obj)\<rparr>)"

text \<open>
  \<^verbatim>\<open>Object.values\<close> and \<^verbatim>\<open>Object.entries\<close> list the own properties: first those whose
  key is an array index (the decimal form of a number below \<open>2\<^sup>3\<^sup>2 - 1\<close>), in
  ascending numeric order, then the others in the order of their creation.
\<close>

definition parse_nat :: "string \<Rightarrow> nat" where
  "parse_nat k = foldl (\<lambda>n c. 10 * n + (of_char c - 48)) 0 k"

definition is_index :: "string \<Rightarrow> bool" where
  "is_index k \<longleftrightarrow> show_nat (parse_nat k) = k \<and> parse_nat k < 4294967295"

definition entries :: "jsobject \<Rightarrow> (string \<times> nat) list" where
  "entries obj =
     sort_key (\<lambda>(k, h). parse_nat k) (filter (\<lambda>(k, h). is_index k) (own obj))
     @ filter (\<lambda>(k, h). \<not> is_index k) (own obj)"

text \<open>
  The marker that \<^verbatim>\<open>markersRef.current[k]\<close> evaluates to, if it is one: for
  \<^verbatim>\<open>__proto__\<close> the prototype when it is a marker (no assignment creates an own
  property of that name), and else the own property \<open>k\<close>. Every other inherited property
  is a method or a field of the prototype, which is not a marker and has no
  \<^verbatim>\<open>position\<close> with coordinates.
\<close>

definition lookup :: "jsobject \<Rightarrow> string \<Rightarrow> nat option" where
  "lookup obj k = (if k = ''__proto__'' then proto obj else map_of (own obj) k)"

subsection \<open>The component's state\<close>

text \<open>
  \<open>mapInstanceRef\<close> is \<open>None\<close> until the map has been created. \<open>heap\<close> holds every marker
  object created so far; a marker is referred to by its index there. \<open>markersRef\<close> is the
  object above.
\<close>

record DiveMap =
  mapInstanceRef :: "gmap option"
  markersRef :: jsobject
  heap :: "marker list"

definition initial :: DiveMap where
  "initial = \<lparr>mapInstanceRef = None, markersRef = emptyObject, heap = []\<rparr>"

text \<open>
  The successful run of the initialisation effect. (A run that fails leaves
  \<open>mapInstanceRef\<close> as it is.)
\<close>

definition initMap :: "DiveMap \<Rightarrow> DiveMap" where
  "initMap s = s\<lparr>mapInstanceRef := Some \<lparr>zoom = Some 6, commands = [], listeners = 0\<rparr>\<rparr>"

text \<open>
  \<^verbatim>\<open>createMarker\<close> returns \<^verbatim>\<open>null\<close> without a map; otherwise it constructs the marker
  on the map, with the unselected visual, and returns it. (The click listener it adds
  changes nothing of this state.)
\<close>

definition newMarker :: "DiveLog \<Rightarrow> marker" where
  "newMarker d =
     \<lparr>position = (lat (location d), lng (location d)),
      marker_title = title d,
      content = createMarkerContent d False,
      marker_map = True,
      diveLog = d\<rparr>"

definition createMarker :: "DiveLog \<Rightarrow> DiveMap \<Rightarrow> nat option \<times> DiveMap" where
  "createMarker d s =
     (case mapInstanceRef s of
        None \<Rightarrow> (None, s)
      | Some m \<Rightarrow> (Some (length (heap s)), s\<lparr>heap := heap s @ [newMarker d]\<rparr>))"

subsection \<open>The effect on \<^verbatim>\<open>diveLogs\<close>: reconciliation\<close>

definition detach :: "nat \<Rightarrow> DiveMap \<Rightarrow> DiveMap" where
  "detach h s = s\<lparr>heap := (heap s)[h := (heap s ! h)\<lparr>marker_map := False\<rparr>]\<rparr>"

definition clearMarkers :: "DiveMap \<Rightarrow> DiveMap" where
  "clearMarkers s =
     (fold detach (map snd (entries (markersRef s))) s)\<lparr>markersRef := emptyObject\<rparr>"

definition addMarker :: "DiveLog \<Rightarrow> DiveMap \<Rightarrow> DiveMap" where
  "addMarker d s =
     (case createMarker d s of
        (Some h, s') \<Rightarrow> s'\<lparr>markersRef := assign (dive_id d) h (markersRef s')\<rparr>
      | (None, s') \<Rightarrow> s')"

definition fitToMarkers :: "DiveLog list \<Rightarrow> DiveMap \<Rightarrow> DiveMap" where
  "fitToMarkers ds s =
     (if length ds > 0 then
        (case createBounds (map location ds) of
           None \<Rightarrow> s
         | Some bounds \<Rightarrow>
             (case mapInstanceRef s of
                None \<Rightarrow> s
              | Some m \<Rightarrow>
                  s\<lparr>mapInstanceRef :=
                      Some (m\<lparr>commands := commands m @ [FitBounds bounds, AddListener],
                              listeners := listeners m + 1\<rparr>)\<rparr>))
      else s)"

definition reconcile :: "DiveLog list \<Rightarrow> DiveMap \<Rightarrow> DiveMap" where
  "reconcile ds s =
     (case mapInstanceRef s of
        None \<Rightarrow> s
      | Some m \<Rightarrow> fitToMarkers ds (fold addMarker ds (clearMarkers s)))"

text \<open>
  The listener that reconciliation registers: it lowers a zoom above 15 to 15 and removes
  itself. \<open>bounds_changed z\<close> is the SDK delivering the event when its zoom level is
  \<open>z\<close>: every registered listener runs. \<^verbatim>\<open>fitBounds\<close> itself is given no zoom limit.
\<close>

definition clampListener :: "gmap \<Rightarrow> gmap" where
  "clampListener m =
     (let m1 = (case zoom m of
                  Some z \<Rightarrow>
                    if z \<noteq> 0 \<and> z > 15
                    then m\<lparr>zoom := Some 15, commands := commands m @ [SetZoom 15]\<rparr>
                    else m
                | None \<Rightarrow> m)
      in m1\<lparr>commands := commands m1 @ [RemoveListener], listeners := listeners m1 - 1\<rparr>)"

definition bounds_changed :: "real option \<Rightarrow> DiveMap \<Rightarrow> DiveMap" where
  "bounds_changed z s =
     (case mapInstanceRef s of
        None \<Rightarrow> s
      | Some m \<Rightarrow> s\<lparr>mapInstanceRef := Some ((clampListener ^^ listeners m) (m\<lparr>zoom := z\<rparr>))\<rparr>)"

subsection \<open>The effect on \<^verbatim>\<open>selectedDiveId\<close>: selection\<close>

definition restyle :: "string option \<Rightarrow> string \<times> nat \<Rightarrow> DiveMap \<Rightarrow> DiveMap" where
  "restyle selectedDiveId = (\<lambda>(i, h) s.
     let isSelected = (Some i = selectedDiveId);
         m = heap s ! h
     in s\<lparr>heap := (heap s)[h := m\<lparr>content := updateContent m isSelected\<rparr>]\<rparr>)"

definition setSelected :: "string option \<Rightarrow> DiveMap \<Rightarrow> DiveMap" where
  "setSelected selectedDiveId s =
     (let s1 = fold (restyle selectedDiveId) (entries (markersRef s)) s
      in case selectedDiveId of
           None \<Rightarrow> s1
         | Some sid \<Rightarrow>
             if sid = [] then s1
             else
               (case lookup (markersRef s1) sid of
                  None \<Rightarrow> s1
                | Some h \<Rightarrow>
                    (case mapInstanceRef s1 of
                       None \<Rightarrow> s1
                     | Some m \<Rightarrow>
                         (case position (heap s1 ! h) of
                            (la, lo) \<Rightarrow>
                              s1\<lparr>mapInstanceRef :=
                                   Some (m\<lparr>commands := commands m @ [PanTo la lo]\<rparr>)\<rparr>))))"

subsection \<open>Observations and reachable states\<close>

text \<open>
  The live markers are the markers on the map, and the ids that have a live marker are
  the ids of the records they were made from. \<open>heldIds\<close> are the ids for which the
  component finds a marker in \<open>markersRef\<close>. The selected ids are the keys of \<open>markersRef\<close>
  whose marker shows the selected variant of its visual, and \<open>shownSelected\<close> are the
  markers on the map that show it, whether \<open>markersRef\<close> lists them or not.
\<close>

definition onMap :: "DiveMap \<Rightarrow> marker list" where
  "onMap s = filter marker_map (heap s)"

definition liveIds :: "DiveMap \<Rightarrow> string set" where
  "liveIds s = set (map (\<lambda>m. dive_id (diveLog m)) (onMap s))"

definition heldIds :: "DiveMap \<Rightarrow> string set" where
  "heldIds s =
     set (filter (\<lambda>k. lookup (markersRef s) k \<noteq> None)
            (''__proto__'' # map fst (own (markersRef s))))"

definition selectedIds :: "DiveMap \<Rightarrow> string list" where
  "selectedIds s =
     map fst (filter (\<lambda>(i, h). selected_style (content (heap s ! h))) (own (markersRef s)))"

definition shownSelected :: "DiveMap \<Rightarrow> marker list" where
  "shownSelected s = filter (\<lambda>m. marker_map m \<and> selected_style (content m)) (heap s)"

inductive reachable :: "DiveMap \<Rightarrow> bool" where
  start: "reachable initial"
| init: "reachable s \<Longrightarrow> reachable (initMap s)"
| diveLogs: "reachable s \<Longrightarrow> reachable (reconcile ds s)"
| selectedDiveId: "reachable s \<Longrightarrow> reachable (setSelected sel s)"
| event: "reachable s \<Longrightarrow> reachable (bounds_changed z s)"

text \<open>
  The shape of \<open>markersRef\<close> in every reachable state: no key twice, no marker under two
  keys, no key \<^verbatim>\<open>__proto__\<close>, and every marker it refers to exists (\<open>wellformed\<close>), is
  on the map and was made from a record with the key as its id (\<open>held_live\<close>). \<open>tracked\<close>: every marker on the map that shows the selected
  visual is listed in \<open>markersRef\<close>.
\<close>

definition wellformed :: "DiveMap \<Rightarrow> bool" where
  "wellformed s \<longleftrightarrow>
     distinct (map fst (own (markersRef s))) \<and> distinct (map snd (own (markersRef s)))
     \<and> (\<forall>h \<in> set (map snd (own (markersRef s))). h < length (heap s))
     \<and> ''__proto__'' \<notin> set (map fst (own (markersRef s)))"

definition live_for :: "DiveMap \<Rightarrow> string \<Rightarrow> nat \<Rightarrow> bool" where
  "live_for s k h \<longleftrightarrow>
     h < length (heap s) \<and> marker_map (heap s ! h) \<and> dive_id (diveLog (heap s ! h)) = k"

definition held_live :: "DiveMap \<Rightarrow> bool" where
  "held_live s \<longleftrightarrow>
     (\<forall>(k, h) \<in> set (own (markersRef s)). live_for s k h)
     \<and> (case proto (markersRef s) of None \<Rightarrow> True | Some h \<Rightarrow> live_for s ''__proto__'' h)"

definition all_unselected :: "DiveMap \<Rightarrow> bool" where
  "all_unselected s \<longleftrightarrow>
     (\<forall>(i, h) \<in> set (own (markersRef s)). \<not> selected_style (content (heap s ! h)))"

definition tracked :: "DiveMap \<Rightarrow> bool" where
  "tracked s \<longleftrightarrow>
     (\<forall>h < length (heap s).
        marker_map (heap s ! h) \<and> selected_style (content (heap s ! h)) \<longrightarrow>
        h \<in> snd ` set (own (markersRef s)))"

text \<open>
  \<open>listed\<close>: every marker on the map is one that \<^verbatim>\<open>Object.values\<close> lists, so that the
  next reconciliation takes it off the map.
\<close>

definition listed :: "DiveMap \<Rightarrow> bool" where
  "listed s \<longleftrightarrow>
     (\<forall>h < length (heap s). marker_map (heap s ! h) \<longrightarrow> h \<in> snd ` set (own (markersRef s)))"


text \<open>The framing and panning requests the map has received, and the zoom bound.\<close>

definition framings :: "DiveMap \<Rightarrow> LatLngBounds list" where
  "framings s =
     (case mapInstanceRef s of
        None \<Rightarrow> []
      | Some m \<Rightarrow> concat (map (\<lambda>c. case c of FitBounds b \<Rightarrow> [b] | _ \<Rightarrow> []) (commands m)))"

definition pans :: "DiveMap \<Rightarrow> (real \<times> real) list" where
  "pans s =
     (case mapInstanceRef s of
        None \<Rightarrow> []
      | Some m \<Rightarrow> concat (map (\<lambda>c. case c of PanTo la lo \<Rightarrow> [(la, lo)] | _ \<Rightarrow> []) (commands m)))"

definition zoomWithinMax :: "DiveMap \<Rightarrow> bool" where
  "zoomWithinMax s =
     (case mapInstanceRef s of
        None \<Rightarrow> False
      | Some m \<Rightarrow> (case zoom m of None \<Rightarrow> True | Some z \<Rightarrow> z \<le> 15))"

text \<open>
  Records of the map: one without photos, one with a single photo, and one whose id is
  \<^verbatim>\<open>__proto__\<close>.
\<close>

definition dive_a :: DiveLog where
  "dive_a = \<lparr>userId = ''u'', title = ''Wall'',
             location = \<lparr>lat = 10, lng = 10, name = ''A''\<rparr>, photos = [], createdAt = 1,
             dive_id = ''a''\<rparr>"

definition dive_b :: DiveLog where
  "dive_b = \<lparr>userId = ''u'', title = ''Reef'',
             location = \<lparr>lat = 20, lng = 20, name = ''B''\<rparr>,
             photos = [\<lparr>photo_id = ''u/1_x.jpg'', url = ''p1'', fileName = ''x.jpg'', photo_size = 10\<rparr>],
             createdAt = 2, dive_id = ''b''\<rparr>"

definition dive_p :: DiveLog where
  "dive_p = \<lparr>userId = ''u'', title = ''Cave'',
             location = \<lparr>lat = 30, lng = 30, name = ''P''\<rparr>, photos = [], createdAt = 3,
             dive_id = ''__proto__''\<rparr>"

section \<open>Properties of the validators\<close>

lemma isValid_validateImageFile:
  "isValid (validateImageFile file) \<longleftrightarrow>
     file_type file \<in> set allowedTypes \<and> file_size file \<le> maxSize"
  by (simp add: validateImageFile_def)

lemma length_validate_loop:
  "length (validate_loop fs i errs) =
     length errs + length (filter (\<lambda>f. \<not> isValid (validateImageFile f)) fs)"
  by (induction fs arbitrary: i errs) (simp_all add: Let_def)

lemma validate_loop_eq:
  "validate_loop fs i errs =
     errs @ map (\<lambda>(j, f). file_message j (validateImageFile f))
              (filter (\<lambda>(j, f). \<not> isValid (validateImageFile f)) (enumerate i fs))"
  by (induction fs arbitrary: i errs) (simp_all add: Let_def)

lemma file_message_invalid:
  "\<not> isValid (validateImageFile f) \<Longrightarrow>
   file_message j (validateImageFile f) =
     ''File '' @ show_nat (j + 1) @ '': '' @
       (if file_type f \<notin> {''image/jpeg'', ''image/png'', ''image/webp''}
        then ''Only JPEG, PNG, and WebP images are allowed''
        else ''File size must be less than 10MB'')"
  by (simp add: file_message_def error_text_def validateImageFile_def allowedTypes_def
      split: if_splits)

lemma errors_validateImageFiles:
  "errors (validateImageFiles files) =
     map (\<lambda>(j, f). ''File '' @ show_nat (j + 1) @ '': '' @
            (if file_type f \<notin> {''image/jpeg'', ''image/png'', ''image/webp''}
             then ''Only JPEG, PNG, and WebP images are allowed''
             else ''File size must be less than 10MB''))
       (filter (\<lambda>(j, f). \<not> isValid (validateImageFile f)) (enumerate 0 files))"
proof -
  have "map (\<lambda>(j, f). file_message j (validateImageFile f))
          (filter (\<lambda>(j, f). \<not> isValid (validateImageFile f)) (enumerate 0 files))
      = map (\<lambda>(j, f). ''File '' @ show_nat (j + 1) @ '': '' @
            (if file_type f \<notin> {''image/jpeg'', ''image/png'', ''image/webp''}
             then ''Only JPEG, PNG, and WebP images are allowed''
             else ''File size must be less than 10MB''))
          (filter (\<lambda>(j, f). \<not> isValid (validateImageFile f)) (enumerate 0 files))"
    by (rule map_cong) (auto simp: file_message_invalid)
  then show ?thesis
    by (simp add: validateImageFiles_def Let_def validate_loop_eq)
qed

lemma digit_value: "d < 10 \<Longrightarrow> of_char (digit_char d) = (48 + d :: nat)"
proof -
  assume "d < 10"
  then have "d = 0 \<or> d = 1 \<or> d = 2 \<or> d = 3 \<or> d = 4 \<or> d = 5 \<or> d = 6 \<or> d = 7
    \<or> d = 8 \<or> d = 9" by arith
  then show ?thesis by (elim disjE) (simp_all add: digit_char_def)
qed

lemma parse_nat_snoc: "parse_nat (k @ [c]) = 10 * parse_nat k + (of_char c - 48)"
  by (simp add: parse_nat_def)

lemma parse_show_nat: "parse_nat (show_nat n) = n"
proof (induction n rule: show_nat.induct)
  case (1 n)
  show ?case
  proof (cases "n < 10")
    case True
    then show ?thesis
      by (subst show_nat.simps) (simp add: parse_nat_def digit_value)
  next
    case False
    with "1" have "parse_nat (show_nat (n div 10)) = n div 10" by simp
    with False show ?thesis
      by (subst show_nat.simps) (simp add: parse_nat_snoc digit_value)
  qed
qed

text \<open>
  C10. \<^verbatim>\<open>validateImageFile\<close> accepts a file exactly when its type is one of the three
  allowed MIME types and its size is at most \<open>10 * 1024 * 1024\<close> bytes (so a file of
  exactly that size is accepted); \<^verbatim>\<open>validateImageFiles\<close> accepts a list exactly when
  every file of it is accepted, and its error list holds one message per rejected file, in
  the order of the files: the text \<^verbatim>\<open>File\<close>, the position of the file in the list
  counted from 1, and the reason for which that file is rejected. The position is
  written in decimal: reading the digits back gives the number.
\<close>

theorem validateImageFile_iff:
  "(isValid (validateImageFile file) \<longleftrightarrow>
      file_type file \<in> {''image/jpeg'', ''image/png'', ''image/webp''}
      \<and> file_size file \<le> 10 * 1024 * 1024)
   \<and> (file_type file \<in> {''image/jpeg'', ''image/png'', ''image/webp''}
        \<and> file_size file = 10 * 1024 * 1024 \<longrightarrow> isValid (validateImageFile file))
   \<and> (allValid (validateImageFiles files) \<longleftrightarrow>
        (\<forall>f \<in> set files. isValid (validateImageFile f)))
   \<and> length (errors (validateImageFiles files)) =
        length (filter (\<lambda>f. \<not> isValid (validateImageFile f)) files)
   \<and> errors (validateImageFiles files) =
        map (\<lambda>(j, f). ''File '' @ show_nat (j + 1) @ '': '' @
               (if file_type f \<notin> {''image/jpeg'', ''image/png'', ''image/webp''}
                then ''Only JPEG, PNG, and WebP images are allowed''
                else ''File size must be less than 10MB''))
          (filter (\<lambda>(j, f). \<not> isValid (validateImageFile f)) (enumerate 0 files))
   \<and> parse_nat (show_nat n) = n"
proof -
  have one: "isValid (validateImageFile file) \<longleftrightarrow>
      file_type file \<in> {''image/jpeg'', ''image/png'', ''image/webp''}
      \<and> file_size file \<le> 10 * 1024 * 1024"
    by (simp add: isValid_validateImageFile allowedTypes_def maxSize_def)
  have len: "length (errors (validateImageFiles files)) =
        length (filter (\<lambda>f. \<not> isValid (validateImageFile f)) files)"
    by (simp add: validateImageFiles_def Let_def length_validate_loop)
  have "allValid (validateImageFiles files) \<longleftrightarrow> length (errors (validateImageFiles files)) = 0"
    by (simp add: validateImageFiles_def Let_def)
  also have "\<dots> \<longleftrightarrow> (\<forall>f \<in> set files. isValid (validateImageFile f))"
    unfolding len by (simp add: filter_empty_conv)
  finally have all: "allValid (validateImageFiles files) \<longleftrightarrow>
        (\<forall>f \<in> set files. isValid (validateImageFile f))" .
  from one all len errors_validateImageFiles [of files] parse_show_nat [of n]
  show ?thesis by (intro conjI) (assumption | simp)+
qed

theorem validateImageFile_iff_witness:
  "isValid (validateImageFile \<lparr>file_name = ''a.png'', file_type = ''image/png'', file_size = 10485760\<rparr>)
   \<and> \<not> allValid (validateImageFiles
        [\<lparr>file_name = ''a.png'', file_type = ''image/png'', file_size = 10485760\<rparr>,
         \<lparr>file_name = ''b.gif'', file_type = ''image/gif'', file_size = 12\<rparr>,
         \<lparr>file_name = ''c.png'', file_type = ''image/png'', file_size = 10485761\<rparr>])
   \<and> errors (validateImageFiles
        [\<lparr>file_name = ''a.png'', file_type = ''image/png'', file_size = 10485760\<rparr>,
         \<lparr>file_name = ''b.gif'', file_type = ''image/gif'', file_size = 12\<rparr>,
         \<lparr>file_name = ''c.png'', file_type = ''image/png'', file_size = 10485761\<rparr>])
       = [''File 2: Only JPEG, PNG, and WebP images are allowed'',
          ''File 3: File size must be less than 10MB'']
   \<and> show_nat 12 = ''12''"
proof -
  let ?a = "\<lparr>file_name = ''a.png'', file_type = ''image/png'', file_size = 10485760\<rparr>"
  let ?b = "\<lparr>file_name = ''b.gif'', file_type = ''image/gif'', file_size = 12\<rparr>"
  let ?c = "\<lparr>file_name = ''c.png'', file_type = ''image/png'', file_size = 10485761\<rparr>"
  note t = validateImageFile_iff [of ?a "[?a, ?b, ?c]" 12]
  from t have "file_type ?a \<in> {''image/jpeg'', ''image/png'', ''image/webp''}
        \<and> file_size ?a = 10 * 1024 * 1024 \<longrightarrow> isValid (validateImageFile ?a)"
    by (elim conjE)
  then have v: "isValid (validateImageFile ?a)" by simp
  from t have "allValid (validateImageFiles [?a, ?b, ?c]) \<longleftrightarrow>
        (\<forall>f \<in> set [?a, ?b, ?c]. isValid (validateImageFile f))"
    by (elim conjE)
  then have nv: "\<not> allValid (validateImageFiles [?a, ?b, ?c])"
    by (simp add: validateImageFile_def allowedTypes_def)
  have e: "errors (validateImageFiles [?a, ?b, ?c])
       = [''File 2: Only JPEG, PNG, and WebP images are allowed'',
          ''File 3: File size must be less than 10MB'']"
    by (simp add: validateImageFiles_def validateImageFile_def allowedTypes_def maxSize_def
        file_message_def error_text_def show_nat.simps digit_char_def)
  have s: "show_nat 12 = ''12''"
    by (simp add: show_nat.simps digit_char_def)
  from v nv e s show ?thesis by (intro conjI)
qed

section \<open>Properties of the marker visual\<close>

lemma children_createMarkerContent:
  "children (createMarkerContent d sel) =
     (if photos d = [] then [Icon]
      else if length (photos d) > 1
        then [Badge (show_nat (length (photos d))), Img (url (photos d ! 0)) (title d)]
        else [Img (url (photos d ! 0)) (title d)])"
  by (simp add: createMarkerContent_def appendChild_def Let_def)

lemma circular_createMarkerContent: "circular (createMarkerContent d sel)"
  by (simp add: createMarkerContent_def appendChild_def circular_def Let_def)

lemma selected_style_createMarkerContent [simp]:
  "selected_style (createMarkerContent d sel) \<longleftrightarrow> sel"
  by (simp add: createMarkerContent_def appendChild_def selected_style_def Let_def)

text \<open>
  C4. The visual is a function of the record and the selected flag alone (it reads and
  writes no state of the component). With at least one photo it is a circular container
  whose image is the first photo's URL, and it carries a badge, showing the number of
  photos, exactly when there is more than one photo; with no photo it is the circular
  default badge holding the icon. The selected variant is larger than the unselected one
  and has another border colour.
\<close>

theorem createMarkerContent_visual:
  "(photos d \<noteq> [] \<longrightarrow>
      circular (createMarkerContent d sel)
      \<and> Img (url (hd (photos d))) (title d) \<in> set (children (createMarkerContent d sel))
      \<and> Icon \<notin> set (children (createMarkerContent d sel))
      \<and> (has_badge (createMarkerContent d sel) \<longleftrightarrow> length (photos d) > 1)
      \<and> (length (photos d) > 1 \<longrightarrow>
            Badge (show_nat (length (photos d))) \<in> set (children (createMarkerContent d sel))))
   \<and> (photos d = [] \<longrightarrow>
        circular (createMarkerContent d sel)
        \<and> children (createMarkerContent d sel) = [Icon]
        \<and> background (createMarkerContent d sel) \<noteq> None)
   \<and> width (createMarkerContent d True) > width (createMarkerContent d False)
   \<and> height (createMarkerContent d True) > height (createMarkerContent d False)
   \<and> borderColor (createMarkerContent d True) \<noteq> borderColor (createMarkerContent d False)"
proof -
  have photo: "photos d \<noteq> [] \<Longrightarrow>
      Img (url (hd (photos d))) (title d) \<in> set (children (createMarkerContent d sel))
      \<and> Icon \<notin> set (children (createMarkerContent d sel))
      \<and> (has_badge (createMarkerContent d sel) \<longleftrightarrow> length (photos d) > 1)
      \<and> (length (photos d) > 1 \<longrightarrow>
            Badge (show_nat (length (photos d))) \<in> set (children (createMarkerContent d sel)))"
    by (simp add: children_createMarkerContent has_badge_def hd_conv_nth)
  have nophoto: "photos d = [] \<Longrightarrow>
        children (createMarkerContent d sel) = [Icon]
        \<and> background (createMarkerContent d sel) \<noteq> None"
    by (simp add: createMarkerContent_def appendChild_def Let_def)
  have variants: "width (createMarkerContent d True) > width (createMarkerContent d False)
     \<and> height (createMarkerContent d True) > height (createMarkerContent d False)
     \<and> borderColor (createMarkerContent d True) \<noteq> borderColor (createMarkerContent d False)"
    by (simp add: createMarkerContent_def appendChild_def Let_def)
  from photo nophoto variants circular_createMarkerContent show ?thesis by blast
qed

theorem createMarkerContent_visual_witness:
  "children (createMarkerContent
      \<lparr>userId = ''u'', title = ''Reef'',
       location = \<lparr>lat = 20, lng = 20, name = ''B''\<rparr>,
       photos = [\<lparr>photo_id = ''u/1_x.jpg'', url = ''p1'', fileName = ''x.jpg'', photo_size = 10\<rparr>],
       createdAt = 2, dive_id = ''b''\<rparr> False) = [Img ''p1'' ''Reef'']
   \<and> \<not> has_badge (createMarkerContent
      \<lparr>userId = ''u'', title = ''Reef'',
       location = \<lparr>lat = 20, lng = 20, name = ''B''\<rparr>,
       photos = [\<lparr>photo_id = ''u/1_x.jpg'', url = ''p1'', fileName = ''x.jpg'', photo_size = 10\<rparr>],
       createdAt = 2, dive_id = ''b''\<rparr> False)
   \<and> children (createMarkerContent
      \<lparr>userId = ''u'', title = ''Wall'',
       location = \<lparr>lat = 10, lng = 10, name = ''A''\<rparr>, photos = [], createdAt = 1,
       dive_id = ''a''\<rparr> False) = [Icon]"
  using createMarkerContent_visual
    [of "\<lparr>userId = ''u'', title = ''Reef'',
       location = \<lparr>lat = 20, lng = 20, name = ''B''\<rparr>,
       photos = [\<lparr>photo_id = ''u/1_x.jpg'', url = ''p1'', fileName = ''x.jpg'', photo_size = 10\<rparr>],
       createdAt = 2, dive_id = ''b''\<rparr>" False]
    createMarkerContent_visual
    [of "\<lparr>userId = ''u'', title = ''Wall'',
       location = \<lparr>lat = 10, lng = 10, name = ''A''\<rparr>, photos = [], createdAt = 1,
       dive_id = ''a''\<rparr>" False]
  by (simp add: children_createMarkerContent)

section \<open>Properties of the queries\<close>








section \<open>Properties of the cascading delete\<close>

lemma deletePhoto_result:
  "fst (deletePhoto p b) = (if photo_path p \<in> set (blobs b) \<and> photo_path p \<notin> set (refused b) then Inr () else Inl (Error ''Failed to delete photo''))"
  by (simp add: deletePhoto_def deleteObject_def)

lemma deletePhoto_state:
  "snd (deletePhoto p b) = b\<lparr>blobs := filter (\<lambda>x. x \<in> set (refused b) \<or> x \<noteq> photo_path p) (blobs b)\<rparr>"
proof -
  have "filter (\<lambda>x. x \<in> set (refused b) \<or> x \<noteq> photo_path p) (blobs b) = blobs b" if "photo_path p \<notin> set (blobs b)"
    using that by (auto simp: filter_id_conv)
  moreover have "filter (\<lambda>x. x \<in> set (refused b) \<or> x \<noteq> photo_path p) (blobs b) = blobs b" if "photo_path p \<in> set (refused b)"
    using that by (auto simp: filter_id_conv)
  moreover have "filter (\<lambda>x. x \<in> set (refused b) \<or> x \<noteq> photo_path p) (blobs b) = removeAll (photo_path p) (blobs b)" if "photo_path p \<notin> set (refused b)"
    using that by (auto simp: removeAll_filter_not_eq intro!: filter_cong)
  ultimately show ?thesis
    by (simp add: deletePhoto_def deleteObject_def)
qed

lemma deletePhotos_state:
  "snd (deletePhotos ps b) = b\<lparr>blobs := filter (\<lambda>x. x \<in> set (refused b) \<or> x \<notin> photo_path ` set ps) (blobs b)\<rparr>"
proof (induction ps arbitrary: b)
  case Nil
  then show ?case by simp
next
  case (Cons p ps)
  have "snd (deletePhotos (p # ps) b) = snd (deletePhotos ps (snd (deletePhoto p b)))"
    by (simp split: prod.splits)
  also have "\<dots> = b\<lparr>blobs := filter (\<lambda>x. x \<in> set (refused b) \<or> x \<notin> photo_path ` set (p # ps)) (blobs b)\<rparr>"
  proof -
    have "(\<lambda>x. (x \<in> set (refused b) \<or> x \<noteq> photo_path p) \<and>
               (x \<in> set (refused b) \<or> x \<notin> photo_path ` set ps)) = (\<lambda>x. x \<in> set (refused b) \<or> x \<notin> photo_path ` set (p # ps))"
      by auto
    then show ?thesis unfolding Cons.IH deletePhoto_state by simp
  qed
  finally show ?case .
qed

lemma deletePhotos_ok:
  "fst (deletePhotos ps b) = None \<longleftrightarrow> distinct ps \<and> (\<forall>p \<in> set ps. photo_path p \<in> set (blobs b) \<and> photo_path p \<notin> set (refused b))"
proof (induction ps arbitrary: b)
  case Nil
  then show ?case by simp
next
  case (Cons p ps)
  have inj: "photo_path x = photo_path y \<longleftrightarrow> x = y" for x y by (simp add: photo_path_def)
  have "fst (deletePhotos (p # ps) b) = None \<longleftrightarrow> fst (deletePhoto p b) = Inr () \<and> fst (deletePhotos ps (snd (deletePhoto p b))) = None"
    by (auto split: prod.splits sum.splits)
  then show ?case unfolding Cons.IH deletePhoto_result deletePhoto_state
    by (auto simp: inj)
qed

lemma deleteDiveLog_existing:
  assumes d: "map_of (diveLogs b) i = Some d" and r: "read_error b = None"
  shows "deleteDiveLog i b =
     (case fst (deletePhotos (map photo_id (photos d)) b) of
        Some e \<Rightarrow> (Inl e, snd (deletePhotos (map photo_id (photos d)) b))
      | None \<Rightarrow> deleteDoc i (snd (deletePhotos (map photo_id (photos d)) b)))"
  using d r
  by (cases "photos d")
     (auto simp: deleteDiveLog_def getDiveLog_def convertFirestoreDiveLog_def split: prod.splits option.splits)

text \<open>
  C8. For the id of an existing dive log with data \<open>d\<close>: when \<^verbatim>\<open>deleteDiveLog\<close>
  succeeds, no blob of a photo of \<open>d\<close> is left in the blob store and the document is
  gone; when it fails, the document is still there, so the document is never deleted
  unless every photo deletion before it succeeded. Whatever the outcome, once the log has
  been read every photo blob that the store does not refuse to delete is deleted. A record
  with no photos leaves the blob store as it was and deletes only the document. And the
  call does succeed when the backend reports no error and every photo has its own blob.
\<close>

theorem deleteDiveLog_cascade:
  assumes d: "map_of (diveLogs b) i = Some d"
  shows "(fst (deleteDiveLog i b) = Inr () \<longrightarrow>
            (\<forall>p \<in> set (photos d). photo_path (photo_id p) \<notin> set (blobs (snd (deleteDiveLog i b))))
            \<and> map_of (diveLogs (snd (deleteDiveLog i b))) i = None)
       \<and> (fst (deleteDiveLog i b) \<noteq> Inr () \<longrightarrow>
            map_of (diveLogs (snd (deleteDiveLog i b))) i = Some d)
       \<and> (read_error b = None \<longrightarrow>
            (\<forall>p \<in> set (photos d). photo_path (photo_id p) \<notin> set (refused b) \<longrightarrow>
               photo_path (photo_id p) \<notin> set (blobs (snd (deleteDiveLog i b)))))
       \<and> (photos d = [] \<longrightarrow>
            blobs (snd (deleteDiveLog i b)) = blobs b
            \<and> (read_error b = None \<and> write_error b = None \<longrightarrow>
                 deleteDiveLog i b = (Inr (), b\<lparr>diveLogs := AList.delete i (diveLogs b)\<rparr>)))
       \<and> (read_error b = None \<and> write_error b = None
            \<and> distinct (map photo_id (photos d))
            \<and> (\<forall>p \<in> set (photos d). photo_path (photo_id p) \<in> set (blobs b)
                  \<and> photo_path (photo_id p) \<notin> set (refused b)) \<longrightarrow>
            fst (deleteDiveLog i b) = Inr ())"
proof (cases "read_error b")
  case (Some e)
  then have "deleteDiveLog i b = (Inl e, b)"
    by (simp add: deleteDiveLog_def getDiveLog_def)
  with d Some show ?thesis by simp
next
  case None
  let ?ps = "map photo_id (photos d)"
  note eq = deleteDiveLog_existing [OF d None]
  show ?thesis
  proof (cases "fst (deletePhotos ?ps b)")
    case (Some e)
    then have res: "deleteDiveLog i b = (Inl e, snd (deletePhotos ?ps b))"
      using eq by simp
    from Some have bad: "\<not> (distinct ?ps \<and> (\<forall>p \<in> set ?ps. photo_path p \<in> set (blobs b) \<and> photo_path p \<notin> set (refused b)))"
      using deletePhotos_ok [of ?ps b] by simp
    from Some have ne: "photos d \<noteq> []" by auto
    show ?thesis unfolding res using d bad ne
      by (auto simp: deletePhotos_state)
  next
    case no: None
    then have res: "deleteDiveLog i b = deleteDoc i (snd (deletePhotos ?ps b))"
      using eq by simp
    from no have ok: "distinct ?ps \<and> (\<forall>p \<in> set ?ps. photo_path p \<in> set (blobs b) \<and> photo_path p \<notin> set (refused b))"
      using deletePhotos_ok [of ?ps b] by simp
    show ?thesis unfolding res using d ok
      by (auto simp: deletePhotos_state deleteDoc_def delete_conv split: option.splits)
  qed
qed

theorem deleteDiveLog_cascade_witness:
  "map_of (diveLogs example_backend) ''x'' = Some example_dive
   \<and> fst (deleteDiveLog ''x'' example_backend) = Inr ()
   \<and> blobs (snd (deleteDiveLog ''x'' example_backend)) = [''dive-photos/v/3_z.jpg'']
   \<and> map_of (diveLogs (snd (deleteDiveLog ''x'' example_backend))) ''x'' = None"
proof -
  have h: "map_of (diveLogs example_backend) ''x'' = Some example_dive"
    by (simp add: example_backend_def)
  have run: "deleteDiveLog ''x'' example_backend =
       (Inr (), example_backend\<lparr>diveLogs := [], blobs := [''dive-photos/v/3_z.jpg'']\<rparr>)"
    by (simp add: deleteDiveLog_def getDiveLog_def deleteDoc_def deletePhoto_def
        deleteObject_def photo_path_def example_backend_def example_dive_def
        convertFirestoreDiveLog_def)
  from deleteDiveLog_cascade [OF h] h run show ?thesis by simp
qed

section \<open>Properties of the map component\<close>

subsection \<open>The object that holds the markers\<close>

lemma set_entries [simp]: "set (entries obj) = set (own obj)"
  by (auto simp: entries_def)

lemma distinct_vals_entries:
  "distinct (map snd (own obj)) \<Longrightarrow> distinct (map snd (entries obj))"
  by (auto simp: entries_def distinct_map inj_on_def)

lemma lookup_assign [simp]:
  "lookup (assign k h obj) x = (if x = k then Some h else lookup obj x)"
  by (simp add: lookup_def assign_def update_conv')

lemma lookup_emptyObject [simp]: "lookup emptyObject x = None"
  by (simp add: lookup_def emptyObject_def)

lemma set_update_subset: "set (AList.update k v al) \<subseteq> insert (k, v) (set al)"
  by (induction al) auto

lemma vals_update: "set (map snd (AList.update k v al)) \<subseteq> insert v (set (map snd al))"
  using set_update_subset [of k v al] by force

lemma keys_update: "set (map fst (AList.update k v al)) = insert k (set (map fst al))"
  by (induction al) auto

lemma distinct_vals_update:
  "distinct (map snd al) \<Longrightarrow> v \<notin> set (map snd al) \<Longrightarrow> distinct (map snd (AList.update k v al))"
proof (induction al)
  case Nil
  then show ?case by simp
next
  case (Cons p al)
  then show ?case using vals_update [of k v al] by auto
qed

lemma update_fresh: "k \<notin> fst ` set al \<Longrightarrow> AList.update k v al = al @ [(k, v)]"
  by (induction al) auto

lemma own_assign_subset: "set (own (assign k h obj)) \<subseteq> insert (k, h) (set (own obj))"
  using set_update_subset [of k h "own obj"] by (auto simp: assign_def)

lemma heldIds_iff: "k \<in> heldIds s \<longleftrightarrow> lookup (markersRef s) k \<noteq> None"
proof -
  have "map_of (own (markersRef s)) k \<noteq> None \<longleftrightarrow> k \<in> set (map fst (own (markersRef s)))"
    by (simp add: map_of_eq_None_iff)
  then show ?thesis
    by (auto simp: heldIds_def lookup_def simp del: set_map)
qed

subsection \<open>Clearing and creating markers\<close>

lemma detach_simps [simp]:
  "mapInstanceRef (detach h s) = mapInstanceRef s"
  "markersRef (detach h s) = markersRef s"
  "length (heap (detach h s)) = length (heap s)"
  by (simp_all add: detach_def)

lemma fold_detach_simps [simp]:
  "mapInstanceRef (fold detach hs s) = mapInstanceRef s"
  "markersRef (fold detach hs s) = markersRef s"
  "length (heap (fold detach hs s)) = length (heap s)"
  by (induction hs arbitrary: s) simp_all

lemma heap_fold_detach:
  "k < length (heap s) \<Longrightarrow>
   heap (fold detach hs s) ! k =
     (if k \<in> set hs then (heap s ! k)\<lparr>marker_map := False\<rparr> else heap s ! k)"
proof (induction hs arbitrary: s)
  case Nil
  then show ?case by simp
next
  case (Cons h hs)
  have "heap (detach h s) ! k = (if k = h then (heap s ! k)\<lparr>marker_map := False\<rparr> else heap s ! k)"
    using Cons.prems by (simp add: detach_def nth_list_update)
  with Cons.IH [of "detach h s"] Cons.prems show ?case by auto
qed

lemma clearMarkers_simps [simp]:
  "mapInstanceRef (clearMarkers s) = mapInstanceRef s"
  "markersRef (clearMarkers s) = emptyObject"
  "length (heap (clearMarkers s)) = length (heap s)"
  by (simp_all add: clearMarkers_def)

lemma heap_clearMarkers:
  "k < length (heap s) \<Longrightarrow>
   heap (clearMarkers s) ! k =
     (if k \<in> snd ` set (own (markersRef s)) then (heap s ! k)\<lparr>marker_map := False\<rparr>
      else heap s ! k)"
  by (simp add: clearMarkers_def heap_fold_detach)

lemma addMarker_Some:
  "mapInstanceRef s = Some m \<Longrightarrow>
   addMarker d s = s\<lparr>heap := heap s @ [newMarker d],
                     markersRef := assign (dive_id d) (length (heap s)) (markersRef s)\<rparr>"
  by (simp add: addMarker_def createMarker_def)

lemma addMarker_None: "mapInstanceRef s = None \<Longrightarrow> addMarker d s = s"
  by (simp add: addMarker_def createMarker_def)

lemma mapInstanceRef_addMarker [simp]: "mapInstanceRef (addMarker d s) = mapInstanceRef s"
  by (cases "mapInstanceRef s") (simp_all add: addMarker_Some addMarker_None)

lemma mapInstanceRef_fold_addMarker [simp]: "mapInstanceRef (fold addMarker ds s) = mapInstanceRef s"
  by (induction ds arbitrary: s) simp_all

lemma heap_fold_addMarker:
  "mapInstanceRef s = Some m \<Longrightarrow> heap (fold addMarker ds s) = heap s @ map newMarker ds"
proof (induction ds arbitrary: s)
  case Nil
  then show ?case by simp
next
  case (Cons d ds)
  from Cons.prems have "mapInstanceRef (addMarker d s) = Some m" by simp
  from Cons.IH [OF this] Cons.prems show ?case by (simp add: addMarker_Some)
qed

lemma lookup_fold_addMarker_other:
  "x \<notin> dive_id ` set ds \<Longrightarrow>
   lookup (markersRef (fold addMarker ds s)) x = lookup (markersRef s) x"
proof (induction ds arbitrary: s)
  case Nil
  then show ?case by simp
next
  case (Cons d ds)
  then have "lookup (markersRef (addMarker d s)) x = lookup (markersRef s) x"
    by (cases "mapInstanceRef s") (simp_all add: addMarker_Some addMarker_None)
  with Cons show ?case by simp
qed

lemma lookup_fold_addMarker:
  "mapInstanceRef s = Some m \<Longrightarrow> x \<in> dive_id ` set ds \<Longrightarrow>
   \<exists>h. lookup (markersRef (fold addMarker ds s)) x = Some h
     \<and> length (heap s) \<le> h \<and> h < length (heap s) + length ds
     \<and> dive_id (ds ! (h - length (heap s))) = x"
proof (induction ds arbitrary: s)
  case Nil
  then show ?case by simp
next
  case (Cons d ds)
  let ?s = "addMarker d s"
  from Cons.prems have m: "mapInstanceRef ?s = Some m" by simp
  show ?case
  proof (cases "x \<in> dive_id ` set ds")
    case True
    from Cons.IH [OF m True] obtain h where
      "lookup (markersRef (fold addMarker ds ?s)) x = Some h"
      "length (heap ?s) \<le> h" "h < length (heap ?s) + length ds"
      "dive_id (ds ! (h - length (heap ?s))) = x" by blast
    with Cons.prems(1) show ?thesis
      by (intro exI [of _ h]) (auto simp: addMarker_Some nth_Cons')
  next
    case False
    with Cons.prems have x: "x = dive_id d" by auto
    from False have "lookup (markersRef (fold addMarker ds ?s)) x = lookup (markersRef ?s) x"
      by (rule lookup_fold_addMarker_other)
    with Cons.prems(1) x show ?thesis
      by (intro exI [of _ "length (heap s)"]) (simp add: addMarker_Some)
  qed
qed


lemma wellformed_addMarker: "wellformed s \<Longrightarrow> wellformed (addMarker d s)"
proof (cases "mapInstanceRef s")
  case None
  then show "wellformed s \<Longrightarrow> wellformed (addMarker d s)" by (simp add: addMarker_None)
next
  case (Some m)
  assume i: "wellformed s"
  show "wellformed (addMarker d s)"
  proof (cases "dive_id d = ''__proto__''")
    case True
    with i show ?thesis
      unfolding wellformed_def addMarker_Some [OF Some]
      by (auto simp: assign_def less_Suc_eq)
  next
    case False
    from i have fresh: "length (heap s) \<notin> set (map snd (own (markersRef s)))"
      unfolding wellformed_def by blast
    have "h < Suc (length (heap s))"
      if "h \<in> set (map snd (AList.update (dive_id d) (length (heap s)) (own (markersRef s))))" for h
    proof -
      from that vals_update [of "dive_id d" "length (heap s)" "own (markersRef s)"]
      have "h = length (heap s) \<or> h \<in> set (map snd (own (markersRef s)))" by blast
      with i show ?thesis unfolding wellformed_def by (auto simp: less_Suc_eq)
    qed
    with i fresh False show ?thesis
      unfolding wellformed_def addMarker_Some [OF Some]
      by (simp add: assign_def distinct_update distinct_vals_update keys_update del: set_map)
  qed
qed

lemma all_unselected_addMarker:
  assumes "wellformed s" "all_unselected s"
  shows "all_unselected (addMarker d s)"
proof (cases "mapInstanceRef s")
  case None
  with assms show ?thesis by (simp add: addMarker_None)
next
  case (Some m)
  have "\<not> selected_style (content ((heap s @ [newMarker d]) ! h))"
    if "(i, h) \<in> set (own (assign (dive_id d) (length (heap s)) (markersRef s)))" for i h
  proof (cases "h = length (heap s)")
    case True
    then show ?thesis by (simp add: newMarker_def)
  next
    case False
    with that own_assign_subset [of "dive_id d" "length (heap s)" "markersRef s"]
    have mem: "(i, h) \<in> set (own (markersRef s))" by blast
    then have "h \<in> set (map snd (own (markersRef s)))" by force
    with assms(1) have lt: "h < length (heap s)" unfolding wellformed_def by blast
    with mem assms(2) show ?thesis unfolding all_unselected_def by (auto simp: nth_append)
  qed
  then show ?thesis unfolding all_unselected_def addMarker_Some [OF Some] by auto
qed

lemma wellformed_fold_addMarker:
  "wellformed s \<Longrightarrow> all_unselected s \<Longrightarrow>
   wellformed (fold addMarker ds s) \<and> all_unselected (fold addMarker ds s)"
  by (induction ds arbitrary: s) (simp_all add: wellformed_addMarker all_unselected_addMarker)

lemma fitToMarkers_simps [simp]:
  "markersRef (fitToMarkers ds s) = markersRef s"
  "heap (fitToMarkers ds s) = heap s"
  by (simp_all add: fitToMarkers_def split: option.splits)

lemma wellformed_clearMarkers [simp]: "wellformed (clearMarkers s)" "all_unselected (clearMarkers s)"
  by (simp_all add: wellformed_def all_unselected_def emptyObject_def)

lemma wellformed_reconcile: "wellformed s \<Longrightarrow> wellformed (reconcile ds s)"
proof (cases "mapInstanceRef s")
  case None
  then show "wellformed s \<Longrightarrow> wellformed (reconcile ds s)" by (simp add: reconcile_def)
next
  case (Some m)
  from wellformed_fold_addMarker [OF wellformed_clearMarkers, of ds s] Some show ?thesis
    by (simp add: reconcile_def wellformed_def)
qed

lemma all_unselected_reconcile: "mapInstanceRef s = Some m \<Longrightarrow> all_unselected (reconcile ds s)"
  using wellformed_fold_addMarker [OF wellformed_clearMarkers, of ds s]
  by (simp add: reconcile_def all_unselected_def)

subsection \<open>Restyling\<close>

lemma restyle_simps [simp]:
  "mapInstanceRef (restyle sel p s) = mapInstanceRef s"
  "markersRef (restyle sel p s) = markersRef s"
  "length (heap (restyle sel p s)) = length (heap s)"
  by (simp_all add: restyle_def Let_def split: prod.splits)

lemma fold_restyle_simps [simp]:
  "mapInstanceRef (fold (restyle sel) al s) = mapInstanceRef s"
  "markersRef (fold (restyle sel) al s) = markersRef s"
  "length (heap (fold (restyle sel) al s)) = length (heap s)"
  by (induction al arbitrary: s) simp_all

lemma heap_restyle:
  "k < length (heap s) \<Longrightarrow>
   heap (restyle sel (i, h) s) ! k =
     (if k = h then (heap s ! k)\<lparr>content := createMarkerContent (diveLog (heap s ! k)) (Some i = sel)\<rparr>
      else heap s ! k)"
  by (simp add: restyle_def Let_def updateContent_def nth_list_update)

lemma heap_fold_restyle_other:
  "k < length (heap s) \<Longrightarrow> k \<notin> snd ` set al \<Longrightarrow> heap (fold (restyle sel) al s) ! k = heap s ! k"
proof (induction al arbitrary: s)
  case Nil
  then show ?case by simp
next
  case (Cons p al)
  obtain i h where p: "p = (i, h)" by (cases p)
  from Cons.prems p have "heap (restyle sel p s) ! k = heap s ! k"
    by (simp add: heap_restyle)
  with Cons.IH [of "restyle sel p s"] Cons.prems show ?case by simp
qed

lemma heap_fold_restyle:
  "distinct (map snd al) \<Longrightarrow> (i, h) \<in> set al \<Longrightarrow> h < length (heap s) \<Longrightarrow>
   heap (fold (restyle sel) al s) ! h =
     (heap s ! h)\<lparr>content := createMarkerContent (diveLog (heap s ! h)) (Some i = sel)\<rparr>"
proof (induction al arbitrary: s)
  case Nil
  then show ?case by simp
next
  case (Cons p al)
  obtain j g where p: "p = (j, g)" by (cases p)
  show ?case
  proof (cases "(i, h) = p")
    case True
    with Cons.prems have "h \<notin> snd ` set al" by force
    with Cons.prems have "heap (fold (restyle sel) al (restyle sel p s)) ! h = heap (restyle sel p s) ! h"
      by (simp add: heap_fold_restyle_other)
    with True [symmetric] Cons.prems(3) show ?thesis by (simp add: heap_restyle)
  next
    case False
    with Cons.prems have mem: "(i, h) \<in> set al" by auto
    with Cons.prems p have "g \<noteq> h" by force
    with Cons.prems p have same: "heap (restyle sel p s) ! h = heap s ! h"
      by (simp add: heap_restyle)
    from Cons.IH [of "restyle sel p s"] Cons.prems mem same show ?thesis by simp
  qed
qed

text \<open>Restyling changes the content of markers only.\<close>

lemma map_update_same:
  assumes "f y = f (xs ! h)"
  shows "map f (xs[h := y]) = map f xs"
proof (cases "h < length xs")
  case True
  with assms show ?thesis by (simp add: map_update list_update_same_conv)
next
  case False
  then have "length xs \<le> h" by simp
  then have "xs[h := y] = xs" by (rule list_update_beyond)
  then show ?thesis by (simp only:)
qed

lemma frame_restyle:
  "map marker_map (heap (restyle sel p s)) = map marker_map (heap s)"
  "map diveLog (heap (restyle sel p s)) = map diveLog (heap s)"
proof -
  obtain i h where p: "p = (i, h)" by (cases p)
  show "map marker_map (heap (restyle sel p s)) = map marker_map (heap s)"
    unfolding p by (simp add: restyle_def Let_def map_update_same)
  show "map diveLog (heap (restyle sel p s)) = map diveLog (heap s)"
    unfolding p by (simp add: restyle_def Let_def map_update_same)
qed

lemma frame_fold_restyle:
  "map marker_map (heap (fold (restyle sel) al s)) = map marker_map (heap s)"
  "map diveLog (heap (fold (restyle sel) al s)) = map diveLog (heap s)"
  by (induction al arbitrary: s) (simp_all add: frame_restyle)

lemma map_eq_nth: "map f xs = map f ys \<Longrightarrow> k < length ys \<Longrightarrow> f (xs ! k) = f (ys ! k)"
  by (metis length_map nth_map)

lemma liveIds_iff:
  "i \<in> liveIds t \<longleftrightarrow>
     (\<exists>k < length (heap t). marker_map (heap t ! k) \<and> dive_id (diveLog (heap t ! k)) = i)"
proof
  assume "i \<in> liveIds t"
  then obtain m where m: "m \<in> set (heap t)" "marker_map m" "dive_id (diveLog m) = i"
    unfolding liveIds_def onMap_def by auto
  from m(1) obtain k where "k < length (heap t)" "heap t ! k = m"
    unfolding in_set_conv_nth by blast
  with m show "\<exists>k < length (heap t). marker_map (heap t ! k) \<and> dive_id (diveLog (heap t ! k)) = i"
    by blast
next
  assume "\<exists>k < length (heap t). marker_map (heap t ! k) \<and> dive_id (diveLog (heap t ! k)) = i"
  then obtain k where k: "k < length (heap t)" "marker_map (heap t ! k)"
    "dive_id (diveLog (heap t ! k)) = i" by blast
  then have "heap t ! k \<in> set (filter marker_map (heap t))" by simp
  then have "dive_id (diveLog (heap t ! k)) \<in> liveIds t"
    unfolding liveIds_def onMap_def by simp
  with k(3) show "i \<in> liveIds t" by simp
qed

lemma liveIds_frame:
  assumes "map marker_map (heap s') = map marker_map (heap s)"
    and "map diveLog (heap s') = map diveLog (heap s)"
  shows "liveIds s' = liveIds s"
proof -
  from assms(1) have len: "length (heap s') = length (heap s)" by (metis length_map)
  have same: "marker_map (heap s' ! k) = marker_map (heap s ! k)"
    "diveLog (heap s' ! k) = diveLog (heap s ! k)" if "k < length (heap s)" for k
    using map_eq_nth [OF assms(1) that] map_eq_nth [OF assms(2) that] by simp_all
  have "i \<in> liveIds s' \<longleftrightarrow> i \<in> liveIds s" for i
    unfolding liveIds_iff len using same by auto
  then show ?thesis by blast
qed

lemma setSelected_simps [simp]:
  "markersRef (setSelected sel s) = markersRef s"
  "heap (setSelected sel s) = heap (fold (restyle sel) (entries (markersRef s)) s)"
  by (simp_all add: setSelected_def Let_def split: option.splits prod.splits)

lemma liveIds_setSelected [simp]: "liveIds (setSelected sel s) = liveIds s"
  by (rule liveIds_frame) (simp_all add: frame_fold_restyle)

lemma heldIds_setSelected [simp]: "heldIds (setSelected sel s) = heldIds s"
  by (simp add: heldIds_def)

lemma selectedIds_setSelected:
  assumes "wellformed s"
  shows "selectedIds (setSelected sel s) =
           map fst (filter (\<lambda>(i, h). Some i = sel) (own (markersRef s)))"
proof -
  from assms have d: "distinct (map snd (entries (markersRef s)))"
    by (simp add: wellformed_def distinct_vals_entries)
  have "selected_style (content (heap (fold (restyle sel) (entries (markersRef s)) s) ! h))
          \<longleftrightarrow> Some i = sel"
    if "(i, h) \<in> set (own (markersRef s))" for i h
  proof -
    from that have "h \<in> set (map snd (own (markersRef s)))" by force
    with assms have "h < length (heap s)" unfolding wellformed_def by blast
    with d that show ?thesis
      by (simp add: heap_fold_restyle)
  qed
  then have "filter (\<lambda>(i, h). selected_style
                (content (heap (fold (restyle sel) (entries (markersRef s)) s) ! h)))
              (own (markersRef s))
     = filter (\<lambda>(i, h). Some i = sel) (own (markersRef s))"
    by (auto intro!: filter_cong)
  then show ?thesis by (simp add: selectedIds_def)
qed

lemma length_filter_key:
  "distinct (map fst al) \<Longrightarrow> length (filter (\<lambda>(i, h). Some i = sel) al) \<le> 1"
proof (induction al)
  case Nil
  then show ?case by simp
next
  case (Cons p al)
  obtain i h where p: "p = (i, h)" by (cases p)
  show ?case
  proof (cases "Some i = sel")
    case True
    with Cons.prems p have "filter (\<lambda>(i, h). Some i = sel) al = []"
      by (force simp: filter_empty_conv)
    with True p show ?thesis by simp
  next
    case False
    with Cons p show ?thesis by simp
  qed
qed

subsection \<open>Invariants of the reachable states\<close>

lemma wellformed_setSelected: "wellformed s \<Longrightarrow> wellformed (setSelected sel s)"
  by (simp add: wellformed_def)

lemma wellformed_other [simp]:
  "wellformed initial" "wellformed (initMap s) = wellformed s"
  "wellformed (bounds_changed z s) = wellformed s"
  by (simp_all add: wellformed_def initial_def initMap_def bounds_changed_def emptyObject_def
      split: option.splits)

lemma selectedIds_other [simp]:
  "selectedIds initial = []" "selectedIds (initMap s) = selectedIds s"
  "selectedIds (bounds_changed z s) = selectedIds s"
  by (simp_all add: selectedIds_def initial_def initMap_def bounds_changed_def emptyObject_def
      split: option.splits)

lemma selectedIds_unselected: "all_unselected s \<Longrightarrow> selectedIds s = []"
  by (auto simp: all_unselected_def selectedIds_def filter_empty_conv)

lemma reachable_inv: "reachable s \<Longrightarrow> wellformed s \<and> length (selectedIds s) \<le> 1"
proof (induction rule: reachable.induct)
  case start
  then show ?case by simp
next
  case (init s)
  then show ?case by simp
next
  case (diveLogs s ds)
  show ?case
  proof (cases "mapInstanceRef s")
    case None
    with diveLogs show ?thesis by (simp add: reconcile_def)
  next
    case (Some m)
    from all_unselected_reconcile [OF Some] diveLogs show ?thesis
      by (simp add: wellformed_reconcile selectedIds_unselected)
  qed
next
  case (selectedDiveId s sel)
  then have i: "wellformed s" by simp
  then have "distinct (map fst (own (markersRef s)))" by (simp add: wellformed_def)
  from length_filter_key [OF this, of sel] i show ?case
    by (simp add: wellformed_setSelected selectedIds_setSelected)
next
  case (event s z)
  then show ?case by simp
qed

subsection \<open>Reconciliation\<close>

lemma reconcile_None: "mapInstanceRef s = None \<Longrightarrow> reconcile ds s = s"
  by (simp add: reconcile_def)

lemma mapInstanceRef_reconcile_None [simp]:
  "mapInstanceRef (reconcile ds s) = None \<longleftrightarrow> mapInstanceRef s = None"
  by (cases "mapInstanceRef s") (simp_all add: reconcile_def fitToMarkers_def split: option.splits)

lemma markersRef_reconcile:
  "mapInstanceRef s = Some m \<Longrightarrow>
   markersRef (reconcile ds s) = markersRef (fold addMarker ds (clearMarkers s))"
  by (simp add: reconcile_def)

lemma heap_reconcile:
  "mapInstanceRef s = Some m \<Longrightarrow> heap (reconcile ds s) = heap (clearMarkers s) @ map newMarker ds"
  by (simp add: reconcile_def heap_fold_addMarker)


lemma lookup_reconcile:
  assumes "mapInstanceRef s = Some m" and "x \<in> dive_id ` set ds"
  shows "\<exists>h. lookup (markersRef (reconcile ds s)) x = Some h
           \<and> length (heap s) \<le> h \<and> h < length (heap (reconcile ds s))
           \<and> heap (reconcile ds s) ! h = newMarker (ds ! (h - length (heap s)))
           \<and> h - length (heap s) < length ds
           \<and> dive_id (ds ! (h - length (heap s))) = x"
proof -
  from lookup_fold_addMarker [of "clearMarkers s" m x ds] assms obtain h where
    "lookup (markersRef (reconcile ds s)) x = Some h"
    "length (heap s) \<le> h" "h < length (heap s) + length ds"
    "dive_id (ds ! (h - length (heap s))) = x"
    by (auto simp: markersRef_reconcile)
  then show ?thesis
    by (intro exI [of _ h]) (simp add: heap_reconcile [OF assms(1)] nth_append)
qed

lemma lookup_reconcile_other:
  assumes "mapInstanceRef s = Some m" and "x \<notin> dive_id ` set ds"
  shows "lookup (markersRef (reconcile ds s)) x = None"
  using lookup_fold_addMarker_other [OF assms(2), of "clearMarkers s"] assms(1)
  by (simp add: markersRef_reconcile)

lemma heldIds_reconcile:
  assumes "mapInstanceRef s = Some m"
  shows "heldIds (reconcile ds s) = dive_id ` set ds"
proof -
  have "x \<in> heldIds (reconcile ds s) \<longleftrightarrow> x \<in> dive_id ` set ds" for x
  proof (cases "x \<in> dive_id ` set ds")
    case True
    with lookup_reconcile [OF assms True] show ?thesis by (auto simp: heldIds_iff)
  next
    case False
    with lookup_reconcile_other [OF assms False] show ?thesis by (simp add: heldIds_iff)
  qed
  then show ?thesis by blast
qed

lemma old_markers_reconcile:
  assumes "mapInstanceRef s = Some m" and "h \<in> snd ` set (own (markersRef s))"
    and "h < length (heap s)"
  shows "\<not> marker_map (heap (reconcile ds s) ! h)"
  using assms by (simp add: heap_reconcile nth_append heap_clearMarkers)

lemma marker_map_newMarker [simp]: "marker_map (newMarker d)" "diveLog (newMarker d) = d"
  "\<not> selected_style (content (newMarker d))"
  by (simp_all add: newMarker_def)

lemma onMap_reconcile:
  "mapInstanceRef s = Some m \<Longrightarrow>
   onMap (reconcile ds s) = onMap (clearMarkers s) @ map newMarker ds"
  by (simp add: onMap_def heap_reconcile filter_id_conv)

lemma onMap_clearMarkers_mem:
  "x \<in> set (onMap (clearMarkers s)) \<longleftrightarrow>
     (\<exists>k < length (heap s). k \<notin> snd ` set (own (markersRef s)) \<and> marker_map (heap s ! k)
        \<and> heap s ! k = x)"
proof
  assume "x \<in> set (onMap (clearMarkers s))"
  then have x: "x \<in> set (heap (clearMarkers s))" "marker_map x" by (simp_all add: onMap_def)
  from x(1) obtain k where k: "k < length (heap s)" "heap (clearMarkers s) ! k = x"
    unfolding in_set_conv_nth by auto
  with x(2) heap_clearMarkers [of k s] have "k \<notin> snd ` set (own (markersRef s))"
    by (auto split: if_splits)
  with k x(2) heap_clearMarkers [of k s]
  show "\<exists>k < length (heap s). k \<notin> snd ` set (own (markersRef s)) \<and> marker_map (heap s ! k)
        \<and> heap s ! k = x" by auto
next
  assume "\<exists>k < length (heap s). k \<notin> snd ` set (own (markersRef s)) \<and> marker_map (heap s ! k)
        \<and> heap s ! k = x"
  then obtain k where k: "k < length (heap s)" "k \<notin> snd ` set (own (markersRef s))"
    "marker_map (heap s ! k)" "heap s ! k = x" by blast
  then have "heap (clearMarkers s) ! k = x" by (simp add: heap_clearMarkers)
  with k(1) have "x \<in> set (heap (clearMarkers s))"
    by (metis clearMarkers_simps(3) nth_mem)
  with k(3,4) show "x \<in> set (onMap (clearMarkers s))" by (simp add: onMap_def)
qed

lemma onMap_clearMarkers_listed: "listed s \<Longrightarrow> onMap (clearMarkers s) = []"
proof -
  assume l: "listed s"
  have "x \<notin> set (onMap (clearMarkers s))" for x
    unfolding onMap_clearMarkers_mem using l by (auto simp: listed_def)
  then show ?thesis by (cases "onMap (clearMarkers s)") auto
qed

lemma liveIds_reconcile:
  "mapInstanceRef s = Some m \<Longrightarrow>
   liveIds (reconcile ds s) = liveIds (clearMarkers s) \<union> dive_id ` set ds"
  by (auto simp: liveIds_def onMap_reconcile)

lemma own_fold_addMarker_distinct:
  "mapInstanceRef s = Some m \<Longrightarrow> distinct (map dive_id ds) \<Longrightarrow>
   ''__proto__'' \<notin> dive_id ` set ds \<Longrightarrow>
   dive_id ` set ds \<inter> fst ` set (own (markersRef s)) = {} \<Longrightarrow>
   own (markersRef (fold addMarker ds s)) =
     own (markersRef s) @ zip (map dive_id ds) [length (heap s) ..< length (heap s) + length ds]"
proof (induction ds arbitrary: s)
  case Nil
  then show ?case by simp
next
  case (Cons d ds)
  let ?s = "addMarker d s"
  from Cons.prems have fresh: "dive_id d \<notin> fst ` set (own (markersRef s))"
    and np: "dive_id d \<noteq> ''__proto__''" by auto
  from Cons.prems(1) fresh np
  have reg: "own (markersRef ?s) = own (markersRef s) @ [(dive_id d, length (heap s))]"
    and len: "length (heap ?s) = Suc (length (heap s))"
    by (simp_all add: addMarker_Some assign_def update_fresh)
  from Cons.prems have m: "mapInstanceRef ?s = Some m" by simp
  from Cons.prems have dis: "distinct (map dive_id ds)" "''__proto__'' \<notin> dive_id ` set ds"
    by simp_all
  from Cons.prems have "dive_id ` set ds \<inter> fst ` set (own (markersRef ?s)) = {}"
    unfolding reg by auto
  from Cons.IH [OF m dis this]
  have "own (markersRef (fold addMarker ds ?s)) =
      own (markersRef s) @ (dive_id d, length (heap s)) #
        zip (map dive_id ds) [Suc (length (heap s)) ..< Suc (length (heap s)) + length ds]"
    unfolding reg len by simp
  moreover have "[length (heap s) ..< length (heap s) + length (d # ds)] =
      length (heap s) # [Suc (length (heap s)) ..< Suc (length (heap s)) + length ds]"
    by (subst upt_rec) simp
  ultimately show ?case by simp
qed

lemma own_reconcile_distinct:
  "mapInstanceRef s = Some m \<Longrightarrow> distinct (map dive_id ds) \<Longrightarrow>
   ''__proto__'' \<notin> dive_id ` set ds \<Longrightarrow>
   own (markersRef (reconcile ds s)) =
     zip (map dive_id ds) [length (heap s) ..< length (heap s) + length ds]"
  using own_fold_addMarker_distinct [of "clearMarkers s" m ds]
  by (simp add: markersRef_reconcile emptyObject_def)

lemma listed_reconcile:
  assumes "listed s" and "distinct (map dive_id ds)" and "''__proto__'' \<notin> dive_id ` set ds"
  shows "listed (reconcile ds s)"
proof (cases "mapInstanceRef s")
  case None
  with assms show ?thesis by (simp add: reconcile_None)
next
  case (Some m)
  have "h \<in> snd ` set (own (markersRef (reconcile ds s)))"
    if h: "h < length (heap (reconcile ds s))" "marker_map (heap (reconcile ds s) ! h)" for h
  proof (cases "h < length (heap s)")
    case True
    with h(2) have on: "marker_map (heap (clearMarkers s) ! h)"
      by (simp add: heap_reconcile [OF Some] nth_append)
    with True have "heap (clearMarkers s) ! h \<in> set (onMap (clearMarkers s))"
      by (simp add: onMap_def)
    with onMap_clearMarkers_listed [OF assms(1)] show ?thesis by simp
  next
    case False
    with h(1) have "h \<in> set [length (heap s) ..< length (heap s) + length ds]"
      by (simp add: heap_reconcile [OF Some])
    then have "h \<in> snd ` set (zip (map dive_id ds) [length (heap s) ..< length (heap s) + length ds])"
      by (metis (no_types, lifting) diff_add_inverse length_map length_upt set_map
          map_snd_zip)
    then show ?thesis by (simp add: own_reconcile_distinct [OF Some assms(2,3)])
  qed
  then show ?thesis unfolding listed_def by blast
qed

lemma listed_other [simp]:
  "listed initial" "listed (initMap s) = listed s" "listed (bounds_changed z s) = listed s"
  by (simp_all add: listed_def initial_def initMap_def bounds_changed_def split: option.splits)

lemma listed_setSelected: "listed s \<Longrightarrow> listed (setSelected sel s)"
proof -
  assume l: "listed s"
  have "marker_map (heap (fold (restyle sel) (entries (markersRef s)) s) ! h) = marker_map (heap s ! h)"
    if "h < length (heap s)" for h
    by (rule map_eq_nth [OF frame_fold_restyle(1) that])
  with l show ?thesis unfolding listed_def by simp
qed

subsection \<open>More invariants\<close>

lemma live_for_append:
  "live_for s k h \<Longrightarrow> heap s' = heap s @ ms \<Longrightarrow> live_for s' k h"
  by (simp add: live_for_def nth_append)

lemma held_live_addMarker: "held_live s \<Longrightarrow> held_live (addMarker d s)"
proof (cases "mapInstanceRef s")
  case None
  then show "held_live s \<Longrightarrow> held_live (addMarker d s)" by (simp add: addMarker_None)
next
  case (Some m)
  assume hl: "held_live s"
  let ?s = "addMarker d s"
  have hp: "heap ?s = heap s @ [newMarker d]" by (simp add: addMarker_Some [OF Some])
  have new: "live_for ?s (dive_id d) (length (heap s))"
    by (simp add: live_for_def hp)
  have own: "live_for ?s k h" if "(k, h) \<in> set (own (markersRef ?s))" for k h
  proof -
    from that own_assign_subset [of "dive_id d" "length (heap s)" "markersRef s"]
    have "(k, h) = (dive_id d, length (heap s)) \<or> (k, h) \<in> set (own (markersRef s))"
      by (auto simp: addMarker_Some [OF Some])
    with new hl hp show ?thesis
      by (auto simp: held_live_def intro: live_for_append)
  qed
  have pr: "live_for ?s ''__proto__'' h" if "proto (markersRef ?s) = Some h" for h
  proof (cases "dive_id d = ''__proto__''")
    case True
    with that new show ?thesis by (simp add: addMarker_Some [OF Some] assign_def)
  next
    case False
    with that have "proto (markersRef s) = Some h"
      by (simp add: addMarker_Some [OF Some] assign_def)
    with hl hp show ?thesis by (auto simp: held_live_def intro: live_for_append)
  qed
  from own pr show "held_live ?s"
    unfolding held_live_def by (auto split: option.splits)
qed

lemma held_live_fold_addMarker: "held_live s \<Longrightarrow> held_live (fold addMarker ds s)"
  by (induction ds arbitrary: s) (simp_all add: held_live_addMarker)

lemma held_live_frame:
  assumes "held_live s" and "markersRef s' = markersRef s"
    and "map marker_map (heap s') = map marker_map (heap s)"
    and "map diveLog (heap s') = map diveLog (heap s)"
  shows "held_live s'"
proof -
  from assms(3) have len: "length (heap s') = length (heap s)" by (metis length_map)
  have "live_for s' k h" if "live_for s k h" for k h
    using that len map_eq_nth [OF assms(3), of h] map_eq_nth [OF assms(4), of h]
    by (simp add: live_for_def)
  with assms(1,2) show ?thesis
    unfolding held_live_def by (auto split: option.splits)
qed

lemma held_live_reconcile: "held_live s \<Longrightarrow> held_live (reconcile ds s)"
proof (cases "mapInstanceRef s")
  case None
  then show "held_live s \<Longrightarrow> held_live (reconcile ds s)" by (simp add: reconcile_None)
next
  case (Some m)
  have "held_live (clearMarkers s)" by (simp add: held_live_def emptyObject_def)
  from held_live_fold_addMarker [OF this, of ds]
  show "held_live (reconcile ds s)"
    by (rule held_live_frame) (simp_all add: reconcile_def Some)
qed

lemma held_live_setSelected: "held_live s \<Longrightarrow> held_live (setSelected sel s)"
  by (erule held_live_frame) (simp_all add: frame_fold_restyle)

lemma held_live_other [simp]:
  "held_live initial" "held_live (initMap s) = held_live s"
  "held_live (bounds_changed z s) = held_live s"
  by (simp_all add: held_live_def live_for_def initial_def initMap_def bounds_changed_def
      emptyObject_def split: option.splits)

lemma reachable_held_live: "reachable s \<Longrightarrow> held_live s"
  by (induction rule: reachable.induct) (simp_all add: held_live_reconcile held_live_setSelected)

lemma held_live_subset:
  assumes "held_live s"
  shows "heldIds s \<subseteq> liveIds s"
proof
  fix k assume "k \<in> heldIds s"
  then obtain h where h: "lookup (markersRef s) k = Some h" by (auto simp: heldIds_iff)
  have "live_for s k h"
  proof (cases "k = ''__proto__''")
    case True
    with h assms show ?thesis by (auto simp: lookup_def held_live_def)
  next
    case False
    with h have "(k, h) \<in> set (own (markersRef s))"
      by (auto simp: lookup_def dest: map_of_SomeD)
    with assms show ?thesis by (auto simp: held_live_def)
  qed
  then show "k \<in> liveIds s" unfolding liveIds_iff live_for_def by blast
qed

lemma tracked_reconcile:
  assumes "tracked s"
  shows "tracked (reconcile ds s)"
proof (cases "mapInstanceRef s")
  case None
  with assms show ?thesis by (simp add: reconcile_None)
next
  case (Some m)
  have "\<not> (marker_map (heap (reconcile ds s) ! h) \<and> selected_style (content (heap (reconcile ds s) ! h)))"
    if "h < length (heap (reconcile ds s))" for h
  proof (cases "h < length (heap s)")
    case True
    show ?thesis
    proof (cases "h \<in> snd ` set (own (markersRef s))")
      case True
      from old_markers_reconcile [OF Some this \<open>h < length (heap s)\<close>] show ?thesis by simp
    next
      case False
      with True have "heap (reconcile ds s) ! h = heap s ! h"
        by (simp add: heap_reconcile [OF Some] nth_append heap_clearMarkers)
      with assms True False show ?thesis unfolding tracked_def by auto
    qed
  next
    case False
    with that have "heap (reconcile ds s) ! h = newMarker (ds ! (h - length (heap s)))"
      by (simp add: heap_reconcile [OF Some] nth_append)
    then show ?thesis by simp
  qed
  then show ?thesis unfolding tracked_def by blast
qed

lemma tracked_setSelected:
  assumes "tracked s"
  shows "tracked (setSelected sel s)"
proof -
  have "h \<in> snd ` set (own (markersRef s))"
    if "h < length (heap s)"
      "marker_map (heap (fold (restyle sel) (entries (markersRef s)) s) ! h)"
      "selected_style (content (heap (fold (restyle sel) (entries (markersRef s)) s) ! h))" for h
  proof (rule ccontr)
    assume n: "h \<notin> snd ` set (own (markersRef s))"
    with that(1) have "heap (fold (restyle sel) (entries (markersRef s)) s) ! h = heap s ! h"
      by (simp add: heap_fold_restyle_other)
    with that assms n show False unfolding tracked_def by auto
  qed
  then show ?thesis unfolding tracked_def by simp
qed

lemma tracked_other [simp]:
  "tracked initial" "tracked (initMap s) = tracked s" "tracked (bounds_changed z s) = tracked s"
  by (simp_all add: tracked_def initial_def initMap_def bounds_changed_def split: option.splits)

lemma reachable_tracked: "reachable s \<Longrightarrow> tracked s"
  by (induction rule: reachable.induct) (simp_all add: tracked_reconcile tracked_setSelected)

lemma length_filter_le_1:
  assumes one: "\<And>a b. \<lbrakk>a < length ms; b < length ms; Q (ms ! a); Q (ms ! b)\<rbrakk> \<Longrightarrow> a = b"
  shows "length (filter Q ms) \<le> 1"
  using one
proof (induction ms)
  case Nil
  then show ?case by simp
next
  case (Cons m ms)
  have rest: "length (filter Q ms) \<le> 1"
  proof (rule Cons.IH)
    fix a b assume "a < length ms" "b < length ms" "Q (ms ! a)" "Q (ms ! b)"
    with Cons.prems [of "Suc a" "Suc b"] show "a = b" by simp
  qed
  show ?case
  proof (cases "Q m")
    case True
    have "\<not> Q y" if "y \<in> set ms" for y
    proof
      assume "Q y"
      from that obtain a where "a < length ms" "ms ! a = y" by (auto simp: in_set_conv_nth)
      with Cons.prems [of 0 "Suc a"] True \<open>Q y\<close> show False by simp
    qed
    then have "filter Q ms = []" by (simp add: filter_empty_conv)
    with True show ?thesis by simp
  next
    case False
    with rest show ?thesis by simp
  qed
qed

lemma selectedIds_member:
  "(i, h) \<in> set (own (markersRef s)) \<Longrightarrow> selected_style (content (heap s ! h)) \<Longrightarrow>
   i \<in> set (selectedIds s)"
  by (force simp: selectedIds_def)

lemma shownSelected_le_1:
  assumes "wellformed s" "tracked s" "length (selectedIds s) \<le> 1"
  shows "length (shownSelected s) \<le> 1"
  unfolding shownSelected_def
proof (rule length_filter_le_1)
  fix h g
  assume h: "h < length (heap s)" "marker_map (heap s ! h) \<and> selected_style (content (heap s ! h))"
    and g: "g < length (heap s)" "marker_map (heap s ! g) \<and> selected_style (content (heap s ! g))"
  from assms(2) h obtain i where i: "(i, h) \<in> set (own (markersRef s))"
    unfolding tracked_def by force
  from assms(2) g obtain j where j: "(j, g) \<in> set (own (markersRef s))"
    unfolding tracked_def by force
  from i h have "i \<in> set (selectedIds s)" by (simp add: selectedIds_member)
  moreover from j g have "j \<in> set (selectedIds s)" by (simp add: selectedIds_member)
  moreover from assms(3) have "\<exists>x. set (selectedIds s) \<subseteq> {x}"
    by (cases "selectedIds s") auto
  ultimately have "i = j" by auto
  with i j assms(1) show "h = g"
    unfolding wellformed_def by (metis eq_key_imp_eq_value)
qed

lemma reachable_fold_setSelected: "reachable s \<Longrightarrow> reachable (fold setSelected sels s)"
  by (induction sels arbitrary: s) (simp_all add: reachable.selectedDiveId)

subsection \<open>The live markers after reconciliation\<close>

lemma not_index [simp]: "\<not> is_index ''a''" "\<not> is_index ''b''"
  by (simp_all add: is_index_def parse_nat_def show_nat.simps digit_char_def)

lemmas run_simps = reconcile_def initMap_def initial_def clearMarkers_def addMarker_def
  createMarker_def newMarker_def fitToMarkers_def createBounds_def dive_a_def dive_b_def
  dive_p_def detach_def selectedIds_def setSelected_def restyle_def updateContent_def
  emptyObject_def assign_def entries_def lookup_def

text \<open>
  C1, as the code has it. The effect has no error result: no step of it fails on records
  of the declared type. Without a map it returns at once and changes nothing. With a map,
  every id of the list is held afterwards and has a marker on the map. If moreover every
  marker that was on the map was listed in \<open>markersRef\<close>, then afterwards the markers on
  the map are exactly the markers made from the records of the list, so the ids that have
  a live marker are exactly the ids of the list, and the empty list leaves no marker on
  the map. That condition holds in the initial state, is kept by the other effects, and is
  kept by reconciliation when the list has no id twice and no id \<^verbatim>\<open>__proto__\<close>.
\<close>

theorem reconcile_liveIds:
  "(mapInstanceRef s = None \<longrightarrow> reconcile ds s = s)
   \<and> (mapInstanceRef s \<noteq> None \<longrightarrow>
        heldIds (reconcile ds s) = dive_id ` set ds
        \<and> dive_id ` set ds \<subseteq> liveIds (reconcile ds s))
   \<and> (mapInstanceRef s \<noteq> None \<and> listed s \<longrightarrow>
        onMap (reconcile ds s) = map newMarker ds
        \<and> liveIds (reconcile ds s) = dive_id ` set ds
        \<and> (ds = [] \<longrightarrow> onMap (reconcile ds s) = []))
   \<and> (listed s \<and> distinct (map dive_id ds) \<and> ''__proto__'' \<notin> dive_id ` set ds \<longrightarrow>
        listed (reconcile ds s))
   \<and> listed initial
   \<and> (listed s \<longrightarrow>
        listed (initMap s) \<and> listed (setSelected sel s) \<and> listed (bounds_changed z s))"
proof -
  have held: "heldIds (reconcile ds s) = dive_id ` set ds
        \<and> dive_id ` set ds \<subseteq> liveIds (reconcile ds s)" if "mapInstanceRef s \<noteq> None"
  proof -
    from that obtain m where m: "mapInstanceRef s = Some m" by auto
    from heldIds_reconcile [OF m] liveIds_reconcile [OF m] show ?thesis by auto
  qed
  have live: "onMap (reconcile ds s) = map newMarker ds
        \<and> liveIds (reconcile ds s) = dive_id ` set ds
        \<and> (ds = [] \<longrightarrow> onMap (reconcile ds s) = [])"
    if "mapInstanceRef s \<noteq> None" "listed s"
  proof -
    from that obtain m where m: "mapInstanceRef s = Some m" by auto
    from onMap_reconcile [OF m] onMap_clearMarkers_listed [OF that(2)]
    have "onMap (reconcile ds s) = map newMarker ds" by simp
    then show ?thesis by (auto simp: liveIds_def)
  qed
  from held live listed_reconcile listed_setSelected show ?thesis
    by (simp add: reconcile_None)
qed

text \<open>
  C1 as stated fails in three ways. Before the map is created the effect (it runs when the
  component mounts) returns at its first line, and the one record has no marker. After a
  list with a repeated id, and after a list with the id \<^verbatim>\<open>__proto__\<close>, reconciling the
  empty list leaves a marker on the map.
\<close>

theorem reconcile_liveIds_counterexample:
  "liveIds (reconcile [dive_a] initial) \<noteq> dive_id ` set [dive_a]
   \<and> liveIds (reconcile [] (reconcile [dive_a, dive_a] (initMap initial))) \<noteq> dive_id ` set []
   \<and> liveIds (reconcile [] (reconcile [dive_p] (initMap initial))) \<noteq> dive_id ` set []"
  by (simp add: liveIds_def onMap_def run_simps)

theorem reconcile_liveIds_witness:
  "mapInstanceRef (setSelected (Some ''a'') (reconcile [dive_a, dive_b] (initMap initial))) \<noteq> None
   \<and> listed (setSelected (Some ''a'') (reconcile [dive_a, dive_b] (initMap initial)))
   \<and> liveIds (reconcile [dive_b] (setSelected (Some ''a'') (reconcile [dive_a, dive_b] (initMap initial))))
       = {''b''}
   \<and> onMap (reconcile [] (setSelected (Some ''a'') (reconcile [dive_a, dive_b] (initMap initial)))) = []"
proof -
  let ?s = "setSelected (Some ''a'') (reconcile [dive_a, dive_b] (initMap initial))"
  have h: "mapInstanceRef ?s \<noteq> None"
    by (simp add: run_simps)
  have "listed (reconcile [dive_a, dive_b] (initMap initial))"
    by (rule listed_reconcile) (simp_all add: dive_a_def dive_b_def)
  then have l: "listed ?s" by (rule listed_setSelected)
  have b: "dive_id ` set [dive_b] = {''b''}"
    by (simp add: dive_b_def)
  from reconcile_liveIds [of ?s "[dive_b]"] reconcile_liveIds [of ?s "[]"] h l b
  show ?thesis by simp
qed

text \<open>
  Markers that \<open>markersRef\<close> does not list: the marker of the earlier record when an id
  occurs twice, and the marker of the id \<^verbatim>\<open>__proto__\<close>, which becomes the prototype. The
  next reconciliation does not take them off the map.
\<close>

lemma unlisted_markers_stay:
  "markersRef (reconcile [dive_a, dive_a] (initMap initial)) = \<lparr>proto = None, own = [(''a'', 1)]\<rparr>
   \<and> map marker_map (heap (reconcile [] (reconcile [dive_a, dive_a] (initMap initial))))
       = [True, False]
   \<and> markersRef (reconcile [dive_p] (initMap initial)) = \<lparr>proto = Some 0, own = []\<rparr>
   \<and> map marker_map (heap (reconcile [dive_p] (reconcile [dive_p] (initMap initial))))
       = [True, True]"
  by (simp add: run_simps)




subsection \<open>Framing\<close>

lemma mapInstanceRef_reconcile:
  "mapInstanceRef s = Some m \<Longrightarrow>
   mapInstanceRef (reconcile ds s) =
     (if ds = [] then Some m
      else Some (m\<lparr>commands := commands m @ [FitBounds (the (createBounds (map location ds))), AddListener],
                   listeners := listeners m + 1\<rparr>))"
  by (simp add: reconcile_def fitToMarkers_def createBounds_def)

lemma framings_reconcile:
  "mapInstanceRef s = Some m \<Longrightarrow> ds \<noteq> [] \<Longrightarrow>
   framings (reconcile ds s) = framings s @ [the (createBounds (map location ds))]"
  by (simp add: framings_def mapInstanceRef_reconcile)


lemma contains_extend_self: "contains (extendBounds b p) p"
  by (cases b; cases p) simp_all

lemma contains_extend_mono: "contains b q \<Longrightarrow> contains (extendBounds b p) q"
  by (cases b; cases p; cases q) auto

lemma contains_fold_extend_mono:
  "contains b q \<Longrightarrow> contains (fold (\<lambda>pos bounds. extendBounds bounds (lat pos, lng pos)) ps b) q"
  by (induction ps arbitrary: b) (simp_all add: contains_extend_mono)

lemma contains_fold_extend:
  "pos \<in> set ps \<Longrightarrow>
   contains (fold (\<lambda>pos bounds. extendBounds bounds (lat pos, lng pos)) ps b) (lat pos, lng pos)"
proof (induction ps arbitrary: b)
  case Nil
  then show ?case by simp
next
  case (Cons p ps)
  then show ?case
    by (auto simp: contains_fold_extend_mono contains_extend_self)
qed

lemma createBounds_covers:
  "ps \<noteq> [] \<Longrightarrow> \<exists>b. createBounds ps = Some b \<and> (\<forall>pos \<in> set ps. contains b (lat pos, lng pos))"
  by (simp add: createBounds_def contains_fold_extend)

lemma zoom_clampListener: "(case zoom (clampListener m) of None \<Rightarrow> True | Some z \<Rightarrow> z \<le> 15)"
  by (simp add: clampListener_def Let_def split: option.splits)

lemma zoom_clampListener_funpow:
  "0 < n \<Longrightarrow> (case zoom ((clampListener ^^ n) m) of None \<Rightarrow> True | Some z \<Rightarrow> z \<le> 15)"
  by (cases n) (simp_all add: zoom_clampListener)

lemma zoomWithinMax_bounds_changed:
  "mapInstanceRef s = Some m \<Longrightarrow> 0 < listeners m \<Longrightarrow> zoomWithinMax (bounds_changed z s)"
  using zoom_clampListener_funpow [of "listeners m" "m\<lparr>zoom := z\<rparr>"]
  by (simp add: zoomWithinMax_def bounds_changed_def)

text \<open>
  C7, as the code has it. With a map and a non-empty list, reconciliation makes one
  more framing request, for the bounds built from the records' positions, which contain
  the position of every record. The call itself leaves the zoom level as it is; when the
  SDK then reports a change of bounds, at whatever zoom level it has chosen, the zoom
  level is at most 15 afterwards.
\<close>

theorem reconcile_frames:
  assumes "mapInstanceRef s \<noteq> None" and "ds \<noteq> []"
  shows "\<exists>b. createBounds (map location ds) = Some b
           \<and> framings (reconcile ds s) = framings s @ [b]
           \<and> (\<forall>d \<in> set ds. contains b (lat (location d), lng (location d)))
           \<and> map_option zoom (mapInstanceRef (reconcile ds s)) = map_option zoom (mapInstanceRef s)
           \<and> (\<forall>z. zoomWithinMax (bounds_changed z (reconcile ds s)))"
proof -
  from assms(1) obtain m where m: "mapInstanceRef s = Some m" by auto
  from assms(2) have "map location ds \<noteq> []" by simp
  from createBounds_covers [OF this] obtain b where
    b: "createBounds (map location ds) = Some b"
       "\<forall>pos \<in> set (map location ds). contains b (lat pos, lng pos)" by blast
  from framings_reconcile [OF m assms(2)] b(1)
  have f: "framings (reconcile ds s) = framings s @ [b]" by simp
  have z: "map_option zoom (mapInstanceRef (reconcile ds s)) = map_option zoom (mapInstanceRef s)"
    using assms(2) by (simp add: mapInstanceRef_reconcile [OF m] m)
  have "zoomWithinMax (bounds_changed z (reconcile ds s))" for z
    by (rule zoomWithinMax_bounds_changed [where m = "m\<lparr>commands := commands m @ [FitBounds b, AddListener],
                   listeners := listeners m + 1\<rparr>"])
       (use assms(2) b(1) in \<open>simp_all add: mapInstanceRef_reconcile [OF m]\<close>)
  with b f z show ?thesis by auto
qed

text \<open>
  C7 as stated fails in three ways. Before the map is created, reconciling a non-empty
  list requests no framing. With a map, the zoom level can be above 15 right after the
  call, before the SDK has reported the change of bounds; and the listener is removed at
  the first report, so a later change of bounds can leave the zoom level above 15.
\<close>

theorem reconcile_frames_counterexample:
  "framings (reconcile [dive_a] initial) = []
   \<and> \<not> zoomWithinMax (reconcile [dive_a] (bounds_changed (Some 20) (initMap initial)))
   \<and> \<not> zoomWithinMax
         (bounds_changed (Some 22)
            (bounds_changed (Some 20) (reconcile [dive_a] (initMap initial))))"
  by (simp add: framings_def zoomWithinMax_def bounds_changed_def clampListener_def run_simps)

theorem reconcile_frames_witness:
  "mapInstanceRef (initMap initial) \<noteq> None \<and> [dive_a, dive_a] \<noteq> []
   \<and> framings (reconcile [dive_a, dive_a] (initMap initial)) = [Bounds 10 10 10 10]
   \<and> contains (Bounds 10 10 10 10) (10, 10)
   \<and> zoomWithinMax (bounds_changed (Some 22) (reconcile [dive_a, dive_a] (initMap initial)))"
proof -
  have h: "mapInstanceRef (initMap initial) \<noteq> None"
    by (simp add: initMap_def)
  have n: "[dive_a, dive_a] \<noteq> []" by simp
  have b: "createBounds (map location [dive_a, dive_a]) = Some (Bounds 10 10 10 10)"
    by (simp add: createBounds_def dive_a_def)
  have f: "framings (initMap initial) = []"
    by (simp add: framings_def initMap_def)
  from reconcile_frames [OF h n] h b f show ?thesis by auto
qed

subsection \<open>Reconciling twice\<close>






subsection \<open>Selection\<close>

text \<open>
  C5. From any reachable state of the component, after any finite sequence of selections
  at most one id of the live markers shows the selected visual, and at most one marker
  on the map does.
\<close>

theorem selection_exclusive:
  assumes "reachable s"
  shows "length (selectedIds (fold setSelected sels s)) \<le> 1
       \<and> length (shownSelected (fold setSelected sels s)) \<le> 1"
proof -
  from assms have r: "reachable (fold setSelected sels s)"
    by (rule reachable_fold_setSelected)
  from reachable_inv [OF r] have wf: "wellformed (fold setSelected sels s)"
    and one: "length (selectedIds (fold setSelected sels s)) \<le> 1" by simp_all
  from one shownSelected_le_1 [OF wf reachable_tracked [OF r] one] show ?thesis ..
qed

theorem selection_exclusive_witness:
  "reachable (reconcile [dive_a, dive_b] (initMap initial))
   \<and> selectedIds (fold setSelected [Some ''a'', Some ''b''] (reconcile [dive_a, dive_b] (initMap initial))) = [''b'']
   \<and> length (selectedIds (fold setSelected [Some ''a'', Some ''b''] (reconcile [dive_a, dive_b] (initMap initial)))) \<le> 1"
proof -
  have r: "reachable (reconcile [dive_a, dive_b] (initMap initial))"
    by (intro reachable.diveLogs reachable.init reachable.start)
  have v: "selectedIds (fold setSelected [Some ''a'', Some ''b''] (reconcile [dive_a, dive_b] (initMap initial))) = [''b'']"
    by (simp add: run_simps)
  from r v selection_exclusive [OF r, of "[Some ''a'', Some ''b'']"] show ?thesis by simp
qed

lemma pans_setSelected_absent:
  "lookup (markersRef s) sid = None \<Longrightarrow> mapInstanceRef (setSelected (Some sid) s) = mapInstanceRef s"
  by (simp add: setSelected_def Let_def)

text \<open>
  C6. Selecting an id for which the component holds no marker, in particular an id that
  has no marker on the map (\<open>held_live_subset\<close>), leaves no marker in the selected state:
  every marker that \<open>markersRef\<close> lists then shows its unselected visual, so the marker
  selected before has reverted to it, no marker on the map shows the selected visual, the
  held and the live ids stay the same, and the map receives no call, in particular no
  pan.
\<close>

theorem setSelected_absent:
  assumes "reachable s" and "sid \<notin> heldIds s \<or> sid \<notin> liveIds s"
  shows "selectedIds (setSelected (Some sid) s) = []
     \<and> (\<forall>(i, h) \<in> set (entries (markersRef s)).
          content (heap (setSelected (Some sid) s) ! h) = updateContent (heap s ! h) False)
     \<and> heldIds (setSelected (Some sid) s) = heldIds s
     \<and> liveIds (setSelected (Some sid) s) = liveIds s
     \<and> mapInstanceRef (setSelected (Some sid) s) = mapInstanceRef s
     \<and> pans (setSelected (Some sid) s) = pans s
     \<and> shownSelected (setSelected (Some sid) s) = []"
proof -
  from assms(1) have wf: "wellformed s" using reachable_inv by blast
  from assms held_live_subset [OF reachable_held_live [OF assms(1)]]
  have nh: "sid \<notin> heldIds s" by blast
  then have absent: "lookup (markersRef s) sid = None" by (simp add: heldIds_iff)
  have nk: "sid \<notin> fst ` set (own (markersRef s))"
  proof (cases "sid = ''__proto__''")
    case True
    with wf show ?thesis by (simp add: wellformed_def)
  next
    case False
    with absent show ?thesis by (simp add: lookup_def map_of_eq_None_iff)
  qed
  have "filter (\<lambda>(i, h). Some i = Some sid) (own (markersRef s)) = []"
    using nk by (force simp: filter_empty_conv)
  then have none: "selectedIds (setSelected (Some sid) s) = []"
    by (simp add: selectedIds_setSelected [OF wf])
  from wf have d: "distinct (map snd (entries (markersRef s)))"
    by (simp add: wellformed_def distinct_vals_entries)
  have restyled: "content (heap (setSelected (Some sid) s) ! h) = updateContent (heap s ! h) False"
    if "(i, h) \<in> set (own (markersRef s))" for i h
  proof -
    from that have "h \<in> set (map snd (own (markersRef s)))" by force
    with wf have lt: "h < length (heap s)" unfolding wellformed_def by blast
    from that nk have "i \<noteq> sid" by force
    with d that lt show ?thesis
      by (simp add: heap_fold_restyle updateContent_def)
  qed
  from pans_setSelected_absent [OF absent]
  have same: "mapInstanceRef (setSelected (Some sid) s) = mapInstanceRef s" .
  let ?s' = "setSelected (Some sid) s"
  from assms(1) have "tracked ?s'"
    by (intro reachable_tracked reachable.selectedDiveId)
  have "\<not> (marker_map m \<and> selected_style (content m))" if "m \<in> set (heap ?s')" for m
  proof
    assume sel: "marker_map m \<and> selected_style (content m)"
    from that obtain h where h: "h < length (heap ?s')" "heap ?s' ! h = m"
      by (auto simp: in_set_conv_nth)
    with sel \<open>tracked ?s'\<close> obtain i where "(i, h) \<in> set (own (markersRef s))"
      unfolding tracked_def by force
    from restyled [OF this] h sel show False
      by (simp add: updateContent_def)
  qed
  then have shown: "shownSelected ?s' = []"
    by (simp add: shownSelected_def filter_empty_conv)
  from none restyled same shown show ?thesis by (auto simp: pans_def)
qed

theorem setSelected_absent_witness:
  "reachable (setSelected (Some ''b'') (reconcile [dive_b] (initMap initial)))
   \<and> ''a'' \<notin> heldIds (setSelected (Some ''b'') (reconcile [dive_b] (initMap initial)))
   \<and> selectedIds (setSelected (Some ''b'') (reconcile [dive_b] (initMap initial))) = [''b'']
   \<and> selectedIds (setSelected (Some ''a'') (setSelected (Some ''b'') (reconcile [dive_b] (initMap initial)))) = []
   \<and> pans (setSelected (Some ''a'') (setSelected (Some ''b'') (reconcile [dive_b] (initMap initial)))) = [(20, 20)]"
proof -
  let ?s = "setSelected (Some ''b'') (reconcile [dive_b] (initMap initial))"
  have r: "reachable ?s"
    by (intro reachable.selectedDiveId reachable.diveLogs reachable.init reachable.start)
  have a: "''a'' \<notin> heldIds ?s"
    by (simp add: heldIds_def run_simps)
  have b: "selectedIds ?s = [''b'']"
    by (simp add: run_simps)
  have p: "pans ?s = [(20, 20)]"
    by (simp add: pans_def run_simps)
  from a have "''a'' \<notin> heldIds ?s \<or> ''a'' \<notin> liveIds ?s" ..
  from setSelected_absent [OF r this] r a b p show ?thesis by simp
qed

end
